theory Spec2Isabelle
  imports Main "HOL-Library.AList" "HOL-Library.Word"
begin

section \<open>Data model\<close>

text \<open>
  The two scripts \<^verbatim>\<open>src/stock_info.py\<close> (the extended variant, with dividends and a
  separate \<^verbatim>\<open>HTTPError\<close> handler) and \<^verbatim>\<open>src/src/stock_info.py\<close> (the basic
  variant) share their main flow. Both are modelled by the same definitions, which take
  the variant as a parameter.
\<close>

datatype variant = Basic | Extended

text \<open>
  A Python \<^verbatim>\<open>float\<close> is carried as its IEEE-754 bit pattern; the scripts never
  compute with one, they only pass it on.
\<close>

type_synonym float64 = "64 word"

datatype json =
    JNull
  | JBool bool
  | JInt int
  | JNum float64
  | JStr string
  | JArr "json list"
  | JObj "(string \<times> json) list"

text \<open>
  A Python \<^verbatim>\<open>dict\<close> with string keys, in insertion order. \<^verbatim>\<open>d[k] = v\<close> replaces
  the value in place when \<open>k\<close> is present and appends the pair otherwise.
\<close>

type_synonym dict = "(string \<times> json) list"

definition dict_set :: "(string \<times> 'v) list \<Rightarrow> string \<Rightarrow> 'v \<Rightarrow> (string \<times> 'v) list" where
  "dict_set d k v = AList.update k v d"

definition dict_get :: "(string \<times> 'v) list \<Rightarrow> string \<Rightarrow> 'v option" where
  "dict_get d k = map_of d k"

definition keys :: "(string \<times> 'v) list \<Rightarrow> string list" where
  "keys d = map fst d"

text \<open>
  An exception caught by \<^verbatim>\<open>except Exception\<close>: whether it is an instance of
  \<^verbatim>\<open>curl_cffi.requests.exceptions.HTTPError\<close>, its \<^verbatim>\<open>str(e)\<close>, and the text
  that \<^verbatim>\<open>traceback.print_exc\<close> prints for it.
\<close>

datatype py_exception = PyExc (is_HTTPError: bool) (str_e: string) (tb: string)

text \<open>
  A timestamp that \<^verbatim>\<open>datetime\<close> can represent, of which a pandas \<^verbatim>\<open>Timestamp\<close>
  is a subclass: its year is within 1..9999, its month within 1..12, its day within 1..31.
\<close>

record timestamp =
  year :: nat
  month :: nat
  day :: nat
  hour :: nat
  minute :: nat
  second :: nat

text \<open>
  A value of the dividend series: a number, or an object that \<^verbatim>\<open>float()\<close> rejects,
  with the exception \<^verbatim>\<open>float()\<close> raises for it.
\<close>

datatype amount = Num float64 | NotNum py_exception

text \<open>
  An index value of the dividend series: a timestamp, or a value whose \<^verbatim>\<open>strftime\<close>
  raises, with the exception raised (a value that has no such method, or a pandas
  \<^verbatim>\<open>Timestamp\<close> outside the range of \<^verbatim>\<open>datetime\<close>).
\<close>

datatype index_key = Timestamp timestamp | NoStrftime py_exception

text \<open>
  What the provider answers to one worker: the value of \<^verbatim>\<open>ticker.info\<close> and of
  \<^verbatim>\<open>ticker.dividends\<close>, each either raising or returning.
\<close>

record response =
  info_resp :: "py_exception + dict"
  div_resp :: "py_exception + (index_key \<times> amount) list"

section \<open>Formatting a date\<close>

definition digit_char :: "nat \<Rightarrow> char" where
  "digit_char n = ''0123456789'' ! (n mod 10)"

fun show_nat :: "nat \<Rightarrow> string" where
  "show_nat n = (if n < 10 then [digit_char n] else show_nat (n div 10) @ [digit_char (n mod 10)])"

declare show_nat.simps [simp del]

definition zero_pad :: "nat \<Rightarrow> string \<Rightarrow> string" where
  "zero_pad w s = replicate (w - length s) (CHR ''0'') @ s"

text \<open>
  \<^verbatim>\<open>date.strftime("%Y-%m-%d")\<close> as the C library of Linux formats it: \<^verbatim>\<open>%Y\<close> is the
  year in decimal with no padding (\<^verbatim>\<open>999-01-05\<close> for the year 999), \<^verbatim>\<open>%m\<close> and
  \<^verbatim>\<open>%d\<close> are padded with zeros to two digits.
\<close>

definition strftime_Ymd :: "timestamp \<Rightarrow> string" where
  "strftime_Ymd t =
     show_nat (year t) @ ''-'' @ zero_pad 2 (show_nat (month t)) @ ''-''
       @ zero_pad 2 (show_nat (day t))"

fun strftime_key :: "index_key \<Rightarrow> py_exception + string" where
  "strftime_key (Timestamp t) = Inr (strftime_Ymd t)"
| "strftime_key (NoStrftime e) = Inl e"

definition is_digit :: "char \<Rightarrow> bool" where
  "is_digit c = (c \<in> set ''0123456789'')"

definition is_iso_date :: "string \<Rightarrow> bool" where
  "is_iso_date s =
     (length s = 10 \<and> list_all is_digit (take 4 s) \<and> s ! 4 = CHR ''-''
        \<and> list_all is_digit (take 2 (drop 5 s)) \<and> s ! 7 = CHR ''-''
        \<and> list_all is_digit (drop 8 s))"

definition valid_timestamp :: "timestamp \<Rightarrow> bool" where
  "valid_timestamp t =
     (1 \<le> year t \<and> year t \<le> 9999 \<and> 1 \<le> month t \<and> month t \<le> 12
        \<and> 1 \<le> day t \<and> day t \<le> 31)"

section \<open>The worker: \<^verbatim>\<open>fetch_info\<close>\<close>

text \<open>\<^verbatim>\<open>float(amount)\<close>\<close>

fun py_float :: "amount \<Rightarrow> py_exception + float64" where
  "py_float (Num x) = Inr x"
| "py_float (NotNum e) = Inl e"

text \<open>\<^verbatim>\<open>Series.tail(n)\<close>: the last \<open>n\<close> rows, in the order of the series.\<close>

definition tail :: "nat \<Rightarrow> 'a list \<Rightarrow> 'a list" where
  "tail n xs = drop (length xs - n) xs"

text \<open>
  The dict comprehension
  \<^verbatim>\<open>{date.strftime("%Y-%m-%d"): float(amount) for date, amount in dividends.items()}\<close>:
  the items are visited in order; for each the key is computed, then the value, and the
  pair is assigned into the dict built so far; the first call that raises ends it.
\<close>

fun dividends_dict :: "(index_key \<times> amount) list \<Rightarrow> dict \<Rightarrow> py_exception + dict" where
  "dividends_dict [] acc = Inr acc"
| "dividends_dict ((date, amt) # rest) acc =
     (case strftime_key date of
        Inl e \<Rightarrow> Inl e
      | Inr k \<Rightarrow>
          (case py_float amt of
             Inl e \<Rightarrow> Inl e
           | Inr x \<Rightarrow> dividends_dict rest (dict_set acc k (JNum x))))"

text \<open>The rows of the series that convert: a timestamp with a number.\<close>

definition series_row :: "timestamp \<times> float64 \<Rightarrow> index_key \<times> amount" where
  "series_row row = (Timestamp (fst row), Num (snd row))"

definition json_entry :: "timestamp \<times> float64 \<Rightarrow> string \<times> json" where
  "json_entry row = (strftime_Ymd (fst row), JNum (snd row))"

text \<open>
  The body of the \<^verbatim>\<open>try\<close> block up to the \<^verbatim>\<open>with lock\<close>: the value to store, or
  the exception raised on the way.
\<close>

definition fetch_try :: "variant \<Rightarrow> response \<Rightarrow> py_exception + dict" where
  "fetch_try v r =
     (case info_resp r of
        Inl e \<Rightarrow> Inl e
      | Inr info \<Rightarrow>
          (case v of
             Basic \<Rightarrow> Inr info
           | Extended \<Rightarrow>
               (case div_resp r of
                  Inl e \<Rightarrow> Inl e
                | Inr dividends \<Rightarrow>
                    (case dividends_dict (tail 4 dividends) [] of
                       Inl e \<Rightarrow> Inl e
                     | Inr dividends_dict' \<Rightarrow>
                         Inr (dict_set info ''last_4_dividends'' (JObj dividends_dict'))))))"

text \<open>
  The \<^verbatim>\<open>except\<close> clauses: the value stored for an exception and the line written to
  standard error. The basic variant has the \<^verbatim>\<open>except Exception\<close> clause only.
\<close>

definition error_message :: "variant \<Rightarrow> py_exception \<Rightarrow> string" where
  "error_message v e =
     (if v = Extended \<and> is_HTTPError e then ''HTTPError: '' @ str_e e else str_e e)"

definition error_entry :: "variant \<Rightarrow> py_exception \<Rightarrow> dict" where
  "error_entry v e = [(''error'', JStr (error_message v e))]"

definition diagnostic_line :: "variant \<Rightarrow> string \<Rightarrow> py_exception \<Rightarrow> string" where
  "diagnostic_line v symbol e =
     (if v = Extended \<and> is_HTTPError e
      then ''[HTTP ERROR] Symbol '' @ symbol @ '': '' @ str_e e @ [CHR 0x0A]
      else ''[ERROR] Symbol '' @ symbol @ '': '' @ str_e e @ [CHR 0x0A])"

text \<open>
  The value a call of \<^verbatim>\<open>fetch_info\<close> assigns under its symbol when it reaches one of
  its assignments.
\<close>

definition outcome :: "variant \<Rightarrow> response \<Rightarrow> dict" where
  "outcome v r = (case fetch_try v r of Inl e \<Rightarrow> error_entry v e | Inr info \<Rightarrow> info)"

text \<open>
  What can go wrong in one worker beyond the provider's answers:
  \<^item> \<open>BaseExceptionRaised\<close>: the \<^verbatim>\<open>try\<close> block is left by an exception that is not an
    \<^verbatim>\<open>Exception\<close> (such as \<^verbatim>\<open>SystemExit\<close>), which no \<^verbatim>\<open>except\<close> clause of the
    scripts catches;
  \<^item> \<open>StderrWriteRaises\<close>: \<^verbatim>\<open>sys.stderr.write\<close> in the handler raises (standard error
    is closed, so that \<^verbatim>\<open>sys.stderr\<close> is \<^verbatim>\<open>None\<close>, or the stream cannot be written);
  \<^item> \<open>PrintExcRaises\<close>: that write succeeds and \<^verbatim>\<open>traceback.print_exc\<close> raises.
  The last two matter only when a handler runs.
\<close>

datatype fault = NoFault | BaseExceptionRaised | StderrWriteRaises | PrintExcRaises

text \<open>
  How \<^verbatim>\<open>fetch_info\<close> goes on after the fetch: to \<^verbatim>\<open>with lock\<close> with a value to
  store, or out of the function by an exception, which ends the thread.
\<close>

datatype ending = Stores dict | Dies

text \<open>
  \<^verbatim>\<open>fetch_info\<close> up to \<^verbatim>\<open>with lock\<close>, with what the script writes to standard error.
  In both \<^verbatim>\<open>except\<close> clauses the two writes come before the assignment, and an
  exception raised inside a clause is not caught by the other one.
\<close>

definition fetch_info :: "variant \<Rightarrow> string \<Rightarrow> response \<Rightarrow> fault \<Rightarrow> ending \<times> string list" where
  "fetch_info v symbol r flt =
     (case flt of
        BaseExceptionRaised \<Rightarrow> (Dies, [])
      | _ \<Rightarrow>
          (case fetch_try v r of
             Inr info \<Rightarrow> (Stores info, [])
           | Inl e \<Rightarrow>
               (case flt of
                  StderrWriteRaises \<Rightarrow> (Dies, [])
                | PrintExcRaises \<Rightarrow> (Dies, [diagnostic_line v symbol e])
                | _ \<Rightarrow> (Stores (error_entry v e), [diagnostic_line v symbol e, tb e]))))"

definition stores :: "variant \<Rightarrow> response \<Rightarrow> fault \<Rightarrow> bool" where
  "stores v r flt = (case fst (fetch_info v [] r flt) of Stores d \<Rightarrow> True | Dies \<Rightarrow> False)"


text \<open>
  The provider answers with the metadata record \<open>info\<close> and nothing fails: the metadata
  request returns \<open>info\<close> and, in the extended variant, the dividend request returns a
  series whose last 4 rows are timestamps with numbers, which \<^verbatim>\<open>strftime\<close> and
  \<^verbatim>\<open>float\<close> accept.
\<close>

fun converts :: "index_key \<times> amount \<Rightarrow> bool" where
  "converts (Timestamp t, Num x) = True"
| "converts (Timestamp t, NotNum e) = False"
| "converts (NoStrftime e, amt) = False"

definition provider_returns :: "variant \<Rightarrow> response \<Rightarrow> dict \<Rightarrow> bool" where
  "provider_returns v r info =
     (info_resp r = Inr info
      \<and> (v = Extended \<longrightarrow>
           (case div_resp r of Inl e \<Rightarrow> False | Inr dividends \<Rightarrow> list_all converts (tail 4 dividends))))"

fun is_error_descriptor :: "dict \<Rightarrow> bool" where
  "is_error_descriptor [(k, JStr m)] = (k = ''error'')"
| "is_error_descriptor d = False"

section \<open>The main flow and its threads\<close>

text \<open>\<^verbatim>\<open>str.split(",")\<close>: one piece more than there are separators.\<close>

fun str_split :: "char \<Rightarrow> string \<Rightarrow> string list" where
  "str_split sep [] = [[]]"
| "str_split sep (x # xs) =
     (if x = sep then [] # str_split sep xs
      else (case str_split sep xs of [] \<Rightarrow> [[x]] | w # ws \<Rightarrow> (x # w) # ws))"

datatype top_level_error = IndexError

text \<open>\<^verbatim>\<open>symbols = sys.argv[1].split(",")\<close>\<close>

definition symbols :: "string list \<Rightarrow> top_level_error + string list" where
  "symbols argv = (case argv of _ # a # _ \<Rightarrow> Inr (str_split (CHR '','') a) | _ \<Rightarrow> Inl IndexError)"

text \<open>
  Where a worker thread stands: created, started (about to fetch), fetched (about to
  enter \<^verbatim>\<open>with lock\<close>, carrying the value to store), inside \<^verbatim>\<open>with lock\<close> before
  the assignment, after the assignment and before the release, and finished
  (\<^verbatim>\<open>fetch_info\<close> has returned, or an exception has left it).
\<close>

datatype pc = NotStarted | Ready | Pending dict | Critical dict | Wrote | Finished

text \<open>
  Where the main flow stands: in the loop of \<^verbatim>\<open>t.start()\<close>, in the loop of
  \<^verbatim>\<open>t.join()\<close>, each with the index of the next thread, and after \<^verbatim>\<open>print\<close>.
\<close>

datatype main_pc = Starting nat | Joining nat | Exited

text \<open>
  The shared state. Each thread is kept with the symbol it was created with
  (\<^verbatim>\<open>args=(s,)\<close>). \<open>lock\<close> tells whether the \<^verbatim>\<open>threading.Lock\<close> is held.
  \<open>acquired\<close> is a history variable, not in the scripts: the indices of the threads
  in the order in which they took the lock.
\<close>

record state =
  threads :: "(string \<times> pc) list"
  main_pc :: main_pc
  lock :: bool
  results :: "(string \<times> dict) list"
  stdout :: "json list"
  stderr :: "string list"
  acquired :: "nat list"

type_synonym provider = "nat \<Rightarrow> response"

type_synonym faults = "nat \<Rightarrow> fault"

datatype actor = MainFlow | Worker nat

definition init :: "string list \<Rightarrow> state" where
  "init syms =
     \<lparr>threads = map (\<lambda>s. (s, NotStarted)) syms, main_pc = Starting 0, lock = False,
      results = [], stdout = [], stderr = [], acquired = []\<rparr>"

definition set_pc :: "nat \<Rightarrow> pc \<Rightarrow> state \<Rightarrow> state" where
  "set_pc i q c = c\<lparr>threads := (threads c)[i := (fst (threads c ! i), q)]\<rparr>"

text \<open>
  \<^verbatim>\<open>json.dumps(results)\<close>, as the JSON value it writes; the text of that value is the
  standard library's.
\<close>

definition dumps :: "(string \<times> dict) list \<Rightarrow> json" where
  "dumps rs = JObj (map (\<lambda>(k, d). (k, JObj d)) rs)"

text \<open>
  One atomic step of the main flow. \<^verbatim>\<open>t.start()\<close> raises for a thread that was
  started before, and \<^verbatim>\<open>t.join()\<close> waits until the thread has finished: both are
  steps that cannot be taken (\<open>None\<close>).
\<close>

definition exec_main :: "state \<Rightarrow> state option" where
  "exec_main c =
     (case main_pc c of
        Starting k \<Rightarrow>
          if k < length (threads c)
          then (if snd (threads c ! k) = NotStarted
                then Some ((set_pc k Ready c)\<lparr>main_pc := Starting (Suc k)\<rparr>)
                else None)
          else Some (c\<lparr>main_pc := Joining 0\<rparr>)
      | Joining k \<Rightarrow>
          if k < length (threads c)
          then (if snd (threads c ! k) = Finished
                then Some (c\<lparr>main_pc := Joining (Suc k)\<rparr>)
                else None)
          else Some (c\<lparr>stdout := stdout c @ [dumps (results c)], main_pc := Exited\<rparr>)
      | Exited \<Rightarrow> None)"

text \<open>
  One atomic step of the thread with index \<open>i\<close>, which runs \<^verbatim>\<open>fetch_info\<close> on its
  symbol; \<open>p i\<close> is what the provider answers to it and \<open>f i\<close> what goes wrong in it.
  The steps are: the fetch with the writes to standard error of the handler that catches
  its exception, after which the thread goes on to \<^verbatim>\<open>with lock\<close> or has ended; taking
  the lock, possible only when it is free; the assignment \<^verbatim>\<open>results[symbol] = ...\<close>;
  the release at the end of \<^verbatim>\<open>with lock\<close>. What the runtime itself reports on standard
  error for a thread ended by an exception is not recorded.
\<close>

definition exec_worker :: "variant \<Rightarrow> provider \<Rightarrow> faults \<Rightarrow> nat \<Rightarrow> state \<Rightarrow> state option" where
  "exec_worker v p f i c =
     (if i < length (threads c)
      then (case threads c ! i of
              (symbol, NotStarted) \<Rightarrow> None
            | (symbol, Ready) \<Rightarrow>
                (case fetch_info v symbol (p i) (f i) of
                   (Stores d, out) \<Rightarrow> Some ((set_pc i (Pending d) c)\<lparr>stderr := stderr c @ out\<rparr>)
                 | (Dies, out) \<Rightarrow> Some ((set_pc i Finished c)\<lparr>stderr := stderr c @ out\<rparr>))
            | (symbol, Pending d) \<Rightarrow>
                if lock c then None
                else Some ((set_pc i (Critical d) c)\<lparr>lock := True, acquired := acquired c @ [i]\<rparr>)
            | (symbol, Critical d) \<Rightarrow>
                Some ((set_pc i Wrote c)\<lparr>results := dict_set (results c) symbol d\<rparr>)
            | (symbol, Wrote) \<Rightarrow> Some ((set_pc i Finished c)\<lparr>lock := False\<rparr>)
            | (symbol, Finished) \<Rightarrow> None)
      else None)"

fun exec :: "variant \<Rightarrow> provider \<Rightarrow> faults \<Rightarrow> actor \<Rightarrow> state \<Rightarrow> state option" where
  "exec v p f MainFlow c = exec_main c"
| "exec v p f (Worker i) c = exec_worker v p f i c"

text \<open>A schedule is the list of the actors that take the next step, in order.\<close>

fun run :: "variant \<Rightarrow> provider \<Rightarrow> faults \<Rightarrow> actor list \<Rightarrow> state \<Rightarrow> state option" where
  "run v p f [] c = Some c"
| "run v p f (a # sched) c =
     (case exec v p f a c of None \<Rightarrow> None | Some c' \<Rightarrow> run v p f sched c')"

text \<open>The states of all interleavings of the program started on \<open>syms\<close>.\<close>

inductive reachable :: "variant \<Rightarrow> provider \<Rightarrow> faults \<Rightarrow> string list \<Rightarrow> state \<Rightarrow> bool"
  for v :: variant and p :: provider and f :: faults and syms :: "string list" where
  reachable_init: "reachable v p f syms (init syms)"
| reachable_step:
    "reachable v p f syms c \<Longrightarrow> exec v p f a c = Some c' \<Longrightarrow> reachable v p f syms c'"

text \<open>
  The schedule that starts all threads, runs them one after the other and joins them, for
  threads that all go on to store.
\<close>

definition sequential :: "nat \<Rightarrow> actor list" where
  "sequential n =
     replicate (Suc n) MainFlow @ concat (map (\<lambda>i. replicate 4 (Worker i)) [0..<n])
       @ replicate (Suc n) MainFlow"

section \<open>Invariants of the interleavings\<close>

definition pc_of :: "state \<Rightarrow> nat \<Rightarrow> pc" where
  "pc_of c i = snd (threads c ! i)"

fun in_cs :: "pc \<Rightarrow> bool" where
  "in_cs (Critical d) = True"
| "in_cs Wrote = True"
| "in_cs q = False"

fun written :: "pc \<Rightarrow> bool" where
  "written Wrote = True"
| "written Finished = True"
| "written q = False"

fun going_to_store :: "pc \<Rightarrow> bool" where
  "going_to_store (Pending d) = True"
| "going_to_store (Critical d) = True"
| "going_to_store Wrote = True"
| "going_to_store q = False"

text \<open>The assignments of the threads \<open>ws\<close>, made in that order on an empty dict.\<close>

definition replay :: "variant \<Rightarrow> provider \<Rightarrow> string list \<Rightarrow> nat list \<Rightarrow> (string \<times> dict) list" where
  "replay v p syms ws = foldl (\<lambda>rs i. dict_set rs (syms ! i) (outcome v (p i))) [] ws"

definition inv_threads :: "string list \<Rightarrow> state \<Rightarrow> bool" where
  "inv_threads syms c = (map fst (threads c) = syms)"

definition inv_main :: "state \<Rightarrow> bool" where
  "inv_main c =
     (case main_pc c of
        Starting k \<Rightarrow>
          k \<le> length (threads c) \<and> (\<forall>i<length (threads c). (pc_of c i = NotStarted) = (k \<le> i))
      | Joining k \<Rightarrow>
          k \<le> length (threads c) \<and> (\<forall>i<length (threads c). pc_of c i \<noteq> NotStarted)
            \<and> (\<forall>i<k. pc_of c i = Finished)
      | Exited \<Rightarrow> (\<forall>i<length (threads c). pc_of c i = Finished))"

definition inv_lock :: "state \<Rightarrow> bool" where
  "inv_lock c =
     ((lock c = (\<exists>i<length (threads c). in_cs (pc_of c i)))
      \<and> (\<forall>i<length (threads c). \<forall>j<length (threads c).
            in_cs (pc_of c i) \<and> in_cs (pc_of c j) \<longrightarrow> i = j))"

definition inv_pending :: "variant \<Rightarrow> provider \<Rightarrow> state \<Rightarrow> bool" where
  "inv_pending v p c =
     (\<forall>i<length (threads c). \<forall>d.
        pc_of c i = Pending d \<or> pc_of c i = Critical d \<longrightarrow> d = outcome v (p i))"

definition inv_stores :: "variant \<Rightarrow> provider \<Rightarrow> faults \<Rightarrow> state \<Rightarrow> bool" where
  "inv_stores v p f c =
     (\<forall>i<length (threads c). going_to_store (pc_of c i) \<longrightarrow> stores v (p i) (f i))"

definition inv_acquired :: "variant \<Rightarrow> provider \<Rightarrow> faults \<Rightarrow> state \<Rightarrow> bool" where
  "inv_acquired v p f c =
     (distinct (acquired c)
      \<and> set (acquired c)
          = {i. i < length (threads c)
                \<and> (in_cs (pc_of c i) \<or> (pc_of c i = Finished \<and> stores v (p i) (f i)))}
      \<and> (\<forall>i<length (threads c). \<forall>d.
            pc_of c i = Critical d \<longrightarrow> acquired c \<noteq> [] \<and> last (acquired c) = i))"

definition inv_results :: "variant \<Rightarrow> provider \<Rightarrow> string list \<Rightarrow> state \<Rightarrow> bool" where
  "inv_results v p syms c =
     (results c = replay v p syms (filter (\<lambda>i. written (pc_of c i)) (acquired c)))"

definition inv_stdout :: "state \<Rightarrow> bool" where
  "inv_stdout c = (stdout c = (if main_pc c = Exited then [dumps (results c)] else []))"

definition invariant :: "variant \<Rightarrow> provider \<Rightarrow> faults \<Rightarrow> string list \<Rightarrow> state \<Rightarrow> bool" where
  "invariant v p f syms c =
     (inv_threads syms c \<and> inv_main c \<and> inv_lock c \<and> inv_pending v p c \<and> inv_stores v p f c
        \<and> inv_acquired v p f c \<and> inv_results v p syms c \<and> inv_stdout c)"

text \<open>A bound on the number of steps the program still has to take.\<close>

fun pc_rank :: "pc \<Rightarrow> nat" where
  "pc_rank NotStarted = 4"
| "pc_rank Ready = 4"
| "pc_rank (Pending d) = 3"
| "pc_rank (Critical d) = 2"
| "pc_rank Wrote = 1"
| "pc_rank Finished = 0"

fun main_rank :: "nat \<Rightarrow> main_pc \<Rightarrow> nat" where
  "main_rank n (Starting k) = (n - k) + n + 2"
| "main_rank n (Joining k) = (n - k) + 1"
| "main_rank n Exited = 0"

definition remaining :: "state \<Rightarrow> nat" where
  "remaining c =
     main_rank (length (threads c)) (main_pc c) + sum_list (map (\<lambda>t. pc_rank (snd t)) (threads c))"

text \<open>
  The step an actor is about to take is the assignment into \<open>results\<close>, or the read of
  \<open>results\<close> by \<^verbatim>\<open>json.dumps\<close>.
\<close>

fun mutates_results :: "state \<Rightarrow> actor \<Rightarrow> bool" where
  "mutates_results c MainFlow = False"
| "mutates_results c (Worker i) =
     (i < length (threads c) \<and> (case pc_of c i of Critical d \<Rightarrow> True | _ \<Rightarrow> False))"

fun reads_results :: "state \<Rightarrow> actor \<Rightarrow> bool" where
  "reads_results c MainFlow =
     (case main_pc c of Joining k \<Rightarrow> \<not> k < length (threads c) | _ \<Rightarrow> False)"
| "reads_results c (Worker i) = False"

section \<open>Two runs under the same schedule\<close>

text \<open>
  The control state of a run: where each thread and the main flow stand, the lock and the
  order of its acquisitions, without the values fetched.
\<close>

fun stage :: "pc \<Rightarrow> nat" where
  "stage NotStarted = 0"
| "stage Ready = 1"
| "stage (Pending d) = 2"
| "stage (Critical d) = 3"
| "stage Wrote = 4"
| "stage Finished = 5"

definition same_control :: "state \<Rightarrow> state \<Rightarrow> bool" where
  "same_control c1 c2 =
     (map (\<lambda>t. (fst t, stage (snd t))) (threads c1) = map (\<lambda>t. (fst t, stage (snd t))) (threads c2)
      \<and> main_pc c1 = main_pc c2 \<and> lock c1 = lock c2 \<and> acquired c1 = acquired c2)"

section \<open>Example inputs\<close>

definition midnight :: "nat \<Rightarrow> nat \<Rightarrow> nat \<Rightarrow> timestamp" where
  "midnight y m d = \<lparr>year = y, month = m, day = d, hour = 0, minute = 0, second = 0\<rparr>"

definition five_dividends :: "(index_key \<times> amount) list" where
  "five_dividends =
     [(Timestamp (midnight 2023 2 10), Num 0x3FCD70A3D70A3D71),
      (Timestamp (midnight 2023 5 12), Num 0x3FCEB851EB851EB8),
      (Timestamp (midnight 2023 8 11), Num 0x3FCEB851EB851EB8),
      (Timestamp (midnight 2023 11 10), Num 0x3FCEB851EB851EB8),
      (Timestamp (midnight 2024 2 9), Num 0x3FCEB851EB851EB8)]"

definition aapl_response :: response where
  "aapl_response = \<lparr>info_resp = Inr [(''symbol'', JStr ''AAPL'')], div_resp = Inr five_dividends\<rparr>"

definition aapl_record :: dict where
  "aapl_record =
     [(''symbol'', JStr ''AAPL''),
      (''last_4_dividends'',
       JObj [(''2023-05-12'', JNum 0x3FCEB851EB851EB8), (''2023-08-11'', JNum 0x3FCEB851EB851EB8),
             (''2023-11-10'', JNum 0x3FCEB851EB851EB8), (''2024-02-09'', JNum 0x3FCEB851EB851EB8)])]"

definition no_dividends_response :: response where
  "no_dividends_response = \<lparr>info_resp = Inr [(''symbol'', JStr ''GOOG'')], div_resp = Inr []\<rparr>"


definition always :: "response \<Rightarrow> provider" where
  "always r i = r"

definition timeout_response :: response where
  "timeout_response = \<lparr>info_resp = Inl (PyExc True ''429 Too Many Requests'' ''Traceback''),
     div_resp = Inr []\<rparr>"

definition not_found_response :: response where
  "not_found_response = \<lparr>info_resp = Inl (PyExc False ''No data found for ZZZZINVALID'' ''Traceback''),
     div_resp = Inr []\<rparr>"

definition second_fails :: provider where
  "second_fails i = (if i = 0 then aapl_response else not_found_response)"

definition no_faults :: faults where
  "no_faults i = NoFault"

definition stderr_closed :: faults where
  "stderr_closed i = StderrWriteRaises"

section \<open>Properties of the date format\<close>

lemma digit_char_is_digit: "is_digit (digit_char n)"
proof -
  have "n mod 10 < 10" by simp
  then have "n mod 10 = 0 \<or> n mod 10 = 1 \<or> n mod 10 = 2 \<or> n mod 10 = 3
    \<or> n mod 10 = 4 \<or> n mod 10 = 5 \<or> n mod 10 = 6 \<or> n mod 10 = 7
    \<or> n mod 10 = 8 \<or> n mod 10 = 9"
    by arith
  then show ?thesis
    unfolding digit_char_def is_digit_def by (elim disjE) simp_all
qed

lemma is_digit_zero: "is_digit (CHR ''0'')"
  by (simp add: is_digit_def)

lemma show_nat_digits: "list_all is_digit (show_nat n)"
proof (induction n rule: show_nat.induct)
  case (1 n)
  show ?case
    using 1 by (subst show_nat.simps) (simp add: digit_char_is_digit)
qed

lemma show_nat_lt10: "n < 10 \<Longrightarrow> length (show_nat n) = 1"
  by (subst show_nat.simps) simp

lemma show_nat_lt100: "10 \<le> n \<Longrightarrow> n < 100 \<Longrightarrow> length (show_nat n) = 2"
  by (subst show_nat.simps) (simp add: show_nat_lt10)

lemma show_nat_lt1000: "100 \<le> n \<Longrightarrow> n < 1000 \<Longrightarrow> length (show_nat n) = 3"
  by (subst show_nat.simps) (simp add: show_nat_lt100)

lemma show_nat_lt10000: "1000 \<le> n \<Longrightarrow> n < 10000 \<Longrightarrow> length (show_nat n) = 4"
  by (subst show_nat.simps) (simp add: show_nat_lt1000)

lemma zero_pad_digits: "list_all is_digit s \<Longrightarrow> list_all is_digit (zero_pad w s)"
  by (auto simp add: zero_pad_def list_all_iff is_digit_zero)

lemma zero_pad_length: "length s \<le> w \<Longrightarrow> length (zero_pad w s) = w"
  by (simp add: zero_pad_def)

lemma pad2_show_nat: "n < 100 \<Longrightarrow> length (zero_pad 2 (show_nat n)) = 2"
  by (cases "n < 10") (simp_all add: zero_pad_length show_nat_lt10 show_nat_lt100)

lemma show_nat_short: "n < 1000 \<Longrightarrow> length (show_nat n) \<le> 3"
proof -
  assume n: "n < 1000"
  consider "n < 10" | "10 \<le> n" "n < 100" | "100 \<le> n" by linarith
  then show ?thesis
  proof cases
    case 1
    then show ?thesis by (simp add: show_nat_lt10)
  next
    case 2
    then show ?thesis by (simp add: show_nat_lt100)
  next
    case 3
    with n show ?thesis by (simp add: show_nat_lt1000)
  qed
qed

lemma strftime_Ymd_iso:
  assumes v: "valid_timestamp t"
  shows "is_iso_date (strftime_Ymd t) = (1000 \<le> year t)"
proof -
  define y where "y = show_nat (year t)"
  define m where "m = zero_pad 2 (show_nat (month t))"
  define d where "d = zero_pad 2 (show_nat (day t))"
  have lm: "length m = 2" using v by (simp add: m_def valid_timestamp_def pad2_show_nat)
  have ld: "length d = 2" using v by (simp add: d_def valid_timestamp_def pad2_show_nat)
  have dy: "list_all is_digit y" by (simp add: y_def show_nat_digits)
  have dm: "list_all is_digit m" by (simp add: m_def zero_pad_digits show_nat_digits)
  have dd: "list_all is_digit d" by (simp add: d_def zero_pad_digits show_nat_digits)
  have s: "strftime_Ymd t = y @ CHR ''-'' # m @ CHR ''-'' # d"
    by (simp add: strftime_Ymd_def y_def m_def d_def)
  show ?thesis
  proof (cases "1000 \<le> year t")
    case True
    with v have ly: "length y = 4" by (simp add: y_def valid_timestamp_def show_nat_lt10000)
    have "is_iso_date (strftime_Ymd t)"
      unfolding is_iso_date_def s using ly lm ld dy dm dd
      by (simp add: nth_append)
    with True show ?thesis by simp
  next
    case False
    then have "length y \<le> 3" by (simp add: y_def show_nat_short)
    with lm ld have "length (strftime_Ymd t) \<noteq> 10" by (simp add: s)
    then have "\<not> is_iso_date (strftime_Ymd t)" by (simp add: is_iso_date_def)
    with False show ?thesis by simp
  qed
qed

section \<open>Dicts and the dividend comprehension\<close>

lemma keys_dict_set: "set (keys (dict_set d k v)) = insert k (set (keys d))"
  using AList.dom_update [of k v d] by (simp add: keys_def dict_set_def)

lemma distinct_dict_set: "distinct (keys d) \<Longrightarrow> distinct (keys (dict_set d k v))"
  by (simp add: keys_def dict_set_def AList.distinct_update)

lemma dict_get_dict_set: "dict_get (dict_set d k v) k' = (if k' = k then Some v else dict_get d k')"
  by (simp add: dict_get_def dict_set_def AList.update_conv')

lemma length_dict_set: "length (dict_set d k v) \<le> Suc (length d)"
  unfolding dict_set_def by (induction d) auto

lemma dict_set_fresh: "k \<notin> set (keys d) \<Longrightarrow> dict_set d k v = d @ [(k, v)]"
  unfolding dict_set_def keys_def by (induction d) auto

lemma set_dict_set: "set (dict_set d k v) \<subseteq> insert (k, v) (set d)"
  unfolding dict_set_def by (induction d) auto

lemma in_set_dict_get: "distinct (keys d) \<Longrightarrow> (k, x) \<in> set d \<Longrightarrow> dict_get d k = Some x"
  by (simp add: keys_def dict_get_def)

lemma length_tail: "length (tail n xs) = min n (length xs)"
  by (simp add: tail_def)

lemma set_tail: "set (tail n xs) \<subseteq> set xs"
  by (simp add: tail_def set_drop_subset)

text \<open>
  A comprehension that returns has converted every item: the items are timestamps with
  numbers, and the dict is the result of assigning their entries in order.
\<close>

lemma dividends_dict_rows:
  "dividends_dict items acc = Inr d \<Longrightarrow>
     \<exists>rows. items = map series_row rows
           \<and> d = foldl (\<lambda>a row. dict_set a (fst (json_entry row)) (snd (json_entry row))) acc rows"
proof (induction items acc rule: dividends_dict.induct)
  case (1 acc)
  then show ?case by simp
next
  case (2 date amt rest acc)
  from "2.prems" obtain t where t: "date = Timestamp t"
    by (cases date) simp_all
  from "2.prems" t obtain x where x: "amt = Num x"
    by (cases amt) simp_all
  from "2.prems" t x have "dividends_dict rest (dict_set acc (strftime_Ymd t) (JNum x)) = Inr d"
    by simp
  with "2.IH" [of "strftime_Ymd t" x] t x obtain rows where
    rows: "rest = map series_row rows"
      "d = foldl (\<lambda>a row. dict_set a (fst (json_entry row)) (snd (json_entry row)))
             (dict_set acc (strftime_Ymd t) (JNum x)) rows"
    by auto
  have a: "(date, amt) # rest = map series_row ((t, x) # rows)"
    using t x rows(1) by (simp add: series_row_def)
  have b: "d = foldl (\<lambda>a row. dict_set a (fst (json_entry row)) (snd (json_entry row))) acc
                      ((t, x) # rows)"
    using rows(2) by (simp add: json_entry_def)
  from a b show ?case by (intro exI [of _ "(t, x) # rows"] conjI)
qed

lemma dividends_dict_of_rows:
  "dividends_dict (map series_row rows) acc
     = Inr (foldl (\<lambda>a row. dict_set a (fst (json_entry row)) (snd (json_entry row))) acc rows)"
  by (induction rows arbitrary: acc) (simp_all add: series_row_def json_entry_def)

lemma assign_all_length:
  "length (foldl (\<lambda>a kv. dict_set a (fst kv) (snd kv)) acc kvs) \<le> length acc + length kvs"
proof (induction kvs arbitrary: acc)
  case Nil
  then show ?case by simp
next
  case (Cons kv kvs)
  have "length (foldl (\<lambda>a kv. dict_set a (fst kv) (snd kv)) (dict_set acc (fst kv) (snd kv)) kvs)
          \<le> length (dict_set acc (fst kv) (snd kv)) + length kvs"
    by (rule Cons.IH)
  moreover have "length (dict_set acc (fst kv) (snd kv)) \<le> Suc (length acc)"
    by (rule length_dict_set)
  ultimately show ?case by simp
qed

lemma assign_all_keys:
  "set (keys (foldl (\<lambda>a kv. dict_set a (fst kv) (snd kv)) acc kvs)) = set (keys acc) \<union> fst ` set kvs"
  by (induction kvs arbitrary: acc) (auto simp: keys_dict_set)

lemma assign_all_distinct:
  "distinct (keys acc) \<Longrightarrow> distinct (keys (foldl (\<lambda>a kv. dict_set a (fst kv) (snd kv)) acc kvs))"
  by (induction kvs arbitrary: acc) (simp_all add: distinct_dict_set)

lemma assign_all_fresh:
  "distinct (map fst kvs) \<Longrightarrow> set (keys acc) \<inter> fst ` set kvs = {} \<Longrightarrow>
   foldl (\<lambda>a kv. dict_set a (fst kv) (snd kv)) acc kvs = acc @ kvs"
proof (induction kvs arbitrary: acc)
  case Nil
  then show ?case by simp
next
  case (Cons kv kvs)
  have fresh: "fst kv \<notin> set (keys acc)" using Cons.prems(2) by auto
  then have a: "dict_set acc (fst kv) (snd kv) = acc @ [kv]" by (simp add: dict_set_fresh)
  have "set (keys (acc @ [kv])) \<inter> fst ` set kvs = {}"
    using Cons.prems by (auto simp: keys_def)
  with Cons.IH [of "acc @ [kv]"] Cons.prems(1) a show ?case by simp
qed

lemma find_append_case:
  "find P (xs @ ys) = (case find P xs of None \<Rightarrow> find P ys | Some x \<Rightarrow> Some x)"
  by (induction xs) auto

lemma assign_all_last_wins:
  "dict_get (foldl (\<lambda>a kv. dict_set a (fst kv) (snd kv)) acc kvs) k
     = (case find (\<lambda>kv. fst kv = k) (rev kvs) of None \<Rightarrow> dict_get acc k | Some kv \<Rightarrow> Some (snd kv))"
  by (induction kvs arbitrary: acc)
     (auto simp: find_append_case dict_get_dict_set split: option.splits)

section \<open>The value stored by a successful fetch\<close>

lemma fetch_try_ExtendedD:
  assumes "fetch_try Extended r = Inr stored"
  obtains info dividends dd where "info_resp r = Inr info" "div_resp r = Inr dividends"
    "dividends_dict (tail 4 dividends) [] = Inr dd"
    "stored = dict_set info ''last_4_dividends'' (JObj dd)"
  using assms unfolding fetch_try_def by (auto split: sum.splits)


text \<open>
  Claim C5, as amended. In the extended variant, the \<open>last_4_dividends\<close> field of a
  successfully fetched symbol is a JSON object \<open>dd\<close> built from the last 4 rows of the
  provider's dividend history, which are timestamps with numbers: it has at most 4 entries
  and never more than the history has rows; its keys are distinct and are exactly the dates
  of these rows formatted by \<^verbatim>\<open>%Y-%m-%d\<close>; every value is a number; a key carries the
  amount of the latest row with that date. When the formatted dates of these rows are
  pairwise distinct, \<open>dd\<close> lists them in the order of the history, one entry per row, so
  that it has \<open>min 4 (length dividends)\<close> entries: as many as the history has rows when
  these are fewer than 4. A key has the shape \<^verbatim>\<open>YYYY-MM-DD\<close> exactly when the year of
  its row has four digits; a year below 1000 is written without leading zeros.
\<close>

theorem last_4_dividends_field:
  assumes "fetch_try Extended r = Inr stored"
  shows "\<exists>dividends rows dd.
           div_resp r = Inr dividends
         \<and> tail 4 dividends = map series_row rows
         \<and> dict_get stored ''last_4_dividends'' = Some (JObj dd)
         \<and> length dd \<le> 4 \<and> length dd \<le> length dividends
         \<and> distinct (keys dd)
         \<and> set (keys dd) = (\<lambda>row. strftime_Ymd (fst row)) ` set rows
         \<and> (\<forall>kv\<in>set dd. \<exists>x. snd kv = JNum x)
         \<and> (\<forall>k. dict_get dd k =
                (case find (\<lambda>row. strftime_Ymd (fst row) = k) (rev rows) of
                   None \<Rightarrow> None
                 | Some row \<Rightarrow> Some (JNum (snd row))))
         \<and> (distinct (map (\<lambda>row. strftime_Ymd (fst row)) rows) \<longrightarrow>
               dd = map json_entry rows \<and> length dd = min 4 (length dividends))
         \<and> (\<forall>row\<in>set rows. valid_timestamp (fst row) \<longrightarrow>
               is_iso_date (strftime_Ymd (fst row)) = (1000 \<le> year (fst row)))
         \<and> ((\<forall>row\<in>set rows. valid_timestamp (fst row) \<and> 1000 \<le> year (fst row)) \<longrightarrow>
               list_all is_iso_date (keys dd))"
proof -
  from assms obtain info dividends dd where
    r: "info_resp r = Inr info" "div_resp r = Inr dividends"
    and dd: "dividends_dict (tail 4 dividends) [] = Inr dd"
    and rec_eq: "stored = dict_set info ''last_4_dividends'' (JObj dd)"
    by (rule fetch_try_ExtendedD)
  let ?assign = "\<lambda>a kv. dict_set a (fst kv) (snd kv) :: dict"
  from dividends_dict_rows [OF dd] obtain rows where
    rows: "tail 4 dividends = map series_row rows"
    and dd_rows: "dd = foldl ?assign [] (map json_entry rows)"
    by (auto simp: foldl_map)
  have lr: "length rows = min 4 (length dividends)"
    using rows length_tail [of 4 dividends] by (metis length_map)
  have field: "dict_get stored ''last_4_dividends'' = Some (JObj dd)"
    by (simp add: rec_eq dict_get_dict_set)
  have len: "length dd \<le> min 4 (length dividends)"
    using assign_all_length [of "[]" "map json_entry rows"] by (simp add: dd_rows lr)
  have dis: "distinct (keys dd)"
    unfolding dd_rows by (rule assign_all_distinct) (simp add: keys_def)
  have ks: "set (keys dd) = (\<lambda>row. strftime_Ymd (fst row)) ` set rows"
  proof -
    have "fst ` set (map json_entry rows) = (\<lambda>row. strftime_Ymd (fst row)) ` set rows"
      by (simp add: image_image json_entry_def)
    then show ?thesis
      unfolding dd_rows assign_all_keys by (simp add: keys_def)
  qed
  have lw: "dict_get dd k =
      (case find (\<lambda>row. strftime_Ymd (fst row) = k) (rev rows) of
         None \<Rightarrow> None
       | Some row \<Rightarrow> Some (JNum (snd row)))" for k
  proof -
    have "find (\<lambda>kv. fst kv = k) (map json_entry xs)
            = map_option json_entry (find (\<lambda>row. strftime_Ymd (fst row) = k) xs)" for xs
      by (induction xs) (simp_all add: json_entry_def)
    from this [of "rev rows"] show ?thesis
      unfolding dd_rows assign_all_last_wins
      by (simp add: rev_map dict_get_def json_entry_def split: option.splits)
  qed
  have vs: "\<forall>kv\<in>set dd. \<exists>x. snd kv = JNum x"
  proof
    fix kv assume "kv \<in> set dd"
    then have "(fst kv, snd kv) \<in> set dd" by simp
    with dis have "dict_get dd (fst kv) = Some (snd kv)" by (rule in_set_dict_get)
    with lw [of "fst kv"] show "\<exists>x. snd kv = JNum x" by (auto split: option.splits)
  qed
  have ord: "dd = map json_entry rows \<and> length dd = min 4 (length dividends)"
    if "distinct (map (\<lambda>row. strftime_Ymd (fst row)) rows)"
  proof -
    have "map fst (map json_entry rows) = map (\<lambda>row. strftime_Ymd (fst row)) rows"
      by (simp add: json_entry_def)
    with that have "distinct (map fst (map json_entry rows))" by (simp only:)
    then have "foldl ?assign [] (map json_entry rows) = [] @ map json_entry rows"
      by (rule assign_all_fresh) (simp add: keys_def)
    then show ?thesis by (simp add: dd_rows lr)
  qed
  have iso: "\<forall>row\<in>set rows. valid_timestamp (fst row) \<longrightarrow>
               is_iso_date (strftime_Ymd (fst row)) = (1000 \<le> year (fst row))"
    by (simp add: strftime_Ymd_iso)
  have isos: "list_all is_iso_date (keys dd)"
    if "\<forall>row\<in>set rows. valid_timestamp (fst row) \<and> 1000 \<le> year (fst row)"
    using that ks by (auto simp: list_all_iff strftime_Ymd_iso)
  have len4: "length dd \<le> 4" and lenh: "length dd \<le> length dividends" using len by simp_all
  have lw': "\<forall>k. dict_get dd k =
                (case find (\<lambda>row. strftime_Ymd (fst row) = k) (rev rows) of
                   None \<Rightarrow> None
                 | Some row \<Rightarrow> Some (JNum (snd row)))"
    using lw by blast
  have ord': "distinct (map (\<lambda>row. strftime_Ymd (fst row)) rows) \<longrightarrow>
               dd = map json_entry rows \<and> length dd = min 4 (length dividends)"
    using ord by blast
  have isos': "(\<forall>row\<in>set rows. valid_timestamp (fst row) \<and> 1000 \<le> year (fst row)) \<longrightarrow>
               list_all is_iso_date (keys dd)"
    using isos by blast
  show ?thesis
    by (intro exI [of _ dividends] exI [of _ rows] exI [of _ dd] conjI)
       (rule r(2) rows field len4 lenh dis ks vs lw' ord' iso isos')+
qed

lemma aapl_fetch: "fetch_try Extended aapl_response = Inr aapl_record"
  by code_simp

theorem last_4_dividends_field_witness:
  "fetch_try Extended aapl_response = Inr aapl_record
   \<and> (\<exists>dd. dict_get aapl_record ''last_4_dividends'' = Some (JObj dd) \<and> length dd \<le> 4
          \<and> distinct (keys dd))"
proof -
  from last_4_dividends_field [OF aapl_fetch] show ?thesis
    using aapl_fetch by auto
qed

text \<open>
  Claim C5 as stated fails: a history of two rows dated the same day, fewer than 4, gives a
  field of one entry, since the dict is keyed by the formatted date; and the key of a row
  of the year 999 is \<^verbatim>\<open>999-01-05\<close>, not of the shape \<^verbatim>\<open>YYYY-MM-DD\<close>.
\<close>

theorem last_4_dividends_count_counterexample:
  "fetch_try Extended
     \<lparr>info_resp = Inr [],
      div_resp = Inr [(Timestamp \<lparr>year = 2024, month = 1, day = 15, hour = 9, minute = 0, second = 0\<rparr>,
                        Num 0x3FE0000000000000),
                       (Timestamp \<lparr>year = 2024, month = 1, day = 15, hour = 16, minute = 0, second = 0\<rparr>,
                        Num 0x3FD0000000000000)]\<rparr>
     = Inr [(''last_4_dividends'', JObj [(''2024-01-15'', JNum 0x3FD0000000000000)])]
   \<and> fetch_try Extended
     \<lparr>info_resp = Inr [],
      div_resp = Inr [(Timestamp \<lparr>year = 999, month = 1, day = 5, hour = 0, minute = 0, second = 0\<rparr>,
                        Num 0x3FE0000000000000)]\<rparr>
     = Inr [(''last_4_dividends'', JObj [(''999-01-05'', JNum 0x3FE0000000000000)])]
   \<and> \<not> is_iso_date ''999-01-05''"
  by code_simp

text \<open>
  Claim C9. In the extended variant every successful outcome has the key
  \<open>last_4_dividends\<close>, mapped to a JSON object; for an empty dividend history that
  object is empty.
\<close>

theorem last_4_dividends_always_present:
  assumes "fetch_try Extended r = Inr stored"
  shows "outcome Extended r = stored \<and> ''last_4_dividends'' \<in> set (keys stored)
         \<and> (\<exists>dd. dict_get stored ''last_4_dividends'' = Some (JObj dd)
                \<and> (div_resp r = Inr [] \<longrightarrow> dd = []))"
proof -
  from assms obtain info dividends dd where
    r: "info_resp r = Inr info" "div_resp r = Inr dividends"
    and dd: "dividends_dict (tail 4 dividends) [] = Inr dd"
    and rec_eq: "stored = dict_set info ''last_4_dividends'' (JObj dd)"
    by (rule fetch_try_ExtendedD)
  have "outcome Extended r = stored" using assms by (simp add: outcome_def)
  moreover have "''last_4_dividends'' \<in> set (keys stored)" by (simp add: rec_eq keys_dict_set)
  moreover have "dict_get stored ''last_4_dividends'' = Some (JObj dd)"
    by (simp add: rec_eq dict_get_dict_set)
  moreover have "dd = []" if "div_resp r = Inr []"
    using that r(2) dd by (simp add: tail_def)
  ultimately show ?thesis by blast
qed

theorem last_4_dividends_always_present_witness:
  "fetch_try Extended no_dividends_response
     = Inr [(''symbol'', JStr ''GOOG''), (''last_4_dividends'', JObj [])]
   \<and> dict_get (outcome Extended no_dividends_response) ''last_4_dividends'' = Some (JObj [])"
proof -
  have h: "fetch_try Extended no_dividends_response
             = Inr [(''symbol'', JStr ''GOOG''), (''last_4_dividends'', JObj [])]"
    by code_simp
  from last_4_dividends_always_present [OF h] h show ?thesis
    by (auto simp: no_dividends_response_def)
qed



section \<open>Steps of the program\<close>

lemma set_pc_fields [simp]:
  "threads (set_pc i q c) = (threads c)[i := (fst (threads c ! i), q)]"
  "main_pc (set_pc i q c) = main_pc c"
  "lock (set_pc i q c) = lock c"
  "results (set_pc i q c) = results c"
  "stdout (set_pc i q c) = stdout c"
  "stderr (set_pc i q c) = stderr c"
  "acquired (set_pc i q c) = acquired c"
  by (simp_all add: set_pc_def)

lemma pc_of_set_pc:
  "pc_of (set_pc i q c) j = (if j = i \<and> i < length (threads c) then q else pc_of c j)"
  by (cases "i < length (threads c)") (simp_all add: pc_of_def nth_list_update list_update_beyond)

lemma map_fst_set_pc: "map fst (threads (set_pc i q c)) = map fst (threads c)"
proof (rule nth_equalityI)
  show "length (map fst (threads (set_pc i q c))) = length (map fst (threads c))" by simp
next
  fix j assume "j < length (map fst (threads (set_pc i q c)))"
  then have "j < length (threads c)" by simp
  then show "map fst (threads (set_pc i q c)) ! j = map fst (threads c) ! j"
    by (cases "j = i") simp_all
qed

lemma length_set_pc: "length (threads (set_pc i q c)) = length (threads c)"
  by simp

lemma pc_of_other_fields [simp]:
  "pc_of (main_pc_update fm c) = pc_of c"
  "pc_of (lock_update fl c) = pc_of c"
  "pc_of (results_update fr c) = pc_of c"
  "pc_of (stdout_update fo c) = pc_of c"
  "pc_of (stderr_update fe c) = pc_of c"
  "pc_of (acquired_update fa c) = pc_of c"
  by (simp_all add: pc_of_def fun_eq_iff)

lemma fetch_info_Stores:
  "fst (fetch_info v symbol r flt) = Stores d \<Longrightarrow> d = outcome v r \<and> stores v r flt"
  by (auto simp: fetch_info_def stores_def outcome_def split: fault.splits sum.splits)

lemma fetch_info_Dies: "fst (fetch_info v symbol r flt) = Dies \<Longrightarrow> \<not> stores v r flt"
  by (auto simp: fetch_info_def stores_def split: fault.splits sum.splits)

lemma stores_iff:
  "stores v r flt
     = (flt \<noteq> BaseExceptionRaised \<and> (flt = NoFault \<or> (\<exists>x. fetch_try v r = Inr x)))"
  by (auto simp: fetch_info_def stores_def split: fault.splits sum.splits)

lemma stores_fetch_info: "stores v r flt \<Longrightarrow> fst (fetch_info v symbol r flt) = Stores (outcome v r)"
  by (auto simp: fetch_info_def stores_def outcome_def split: fault.splits sum.splits)

lemma exec_cases [consumes 1, case_names start to_join join emit fetch die acquire store release]:
  assumes "exec v p f a c = Some c'"
  obtains
    (start) k where "a = MainFlow" "main_pc c = Starting k" "k < length (threads c)"
      "pc_of c k = NotStarted" "c' = (set_pc k Ready c)\<lparr>main_pc := Starting (Suc k)\<rparr>"
  | (to_join) k where "a = MainFlow" "main_pc c = Starting k" "\<not> k < length (threads c)"
      "c' = c\<lparr>main_pc := Joining 0\<rparr>"
  | (join) k where "a = MainFlow" "main_pc c = Joining k" "k < length (threads c)"
      "pc_of c k = Finished" "c' = c\<lparr>main_pc := Joining (Suc k)\<rparr>"
  | (emit) k where "a = MainFlow" "main_pc c = Joining k" "\<not> k < length (threads c)"
      "c' = c\<lparr>stdout := stdout c @ [dumps (results c)], main_pc := Exited\<rparr>"
  | (fetch) i where "a = Worker i" "i < length (threads c)" "pc_of c i = Ready"
      "stores v (p i) (f i)"
      "c' = (set_pc i (Pending (outcome v (p i))) c)
              \<lparr>stderr := stderr c @ snd (fetch_info v (fst (threads c ! i)) (p i) (f i))\<rparr>"
  | (die) i where "a = Worker i" "i < length (threads c)" "pc_of c i = Ready"
      "\<not> stores v (p i) (f i)"
      "c' = (set_pc i Finished c)
              \<lparr>stderr := stderr c @ snd (fetch_info v (fst (threads c ! i)) (p i) (f i))\<rparr>"
  | (acquire) i d where "a = Worker i" "i < length (threads c)" "pc_of c i = Pending d"
      "\<not> lock c" "c' = (set_pc i (Critical d) c)\<lparr>lock := True, acquired := acquired c @ [i]\<rparr>"
  | (store) i d where "a = Worker i" "i < length (threads c)" "pc_of c i = Critical d"
      "c' = (set_pc i Wrote c)\<lparr>results := dict_set (results c) (fst (threads c ! i)) d\<rparr>"
  | (release) i where "a = Worker i" "i < length (threads c)" "pc_of c i = Wrote"
      "c' = (set_pc i Finished c)\<lparr>lock := False\<rparr>"
proof (cases a)
  case MainFlow
  with assms have m: "exec_main c = Some c'" by simp
  show ?thesis
  proof (cases "main_pc c")
    case (Starting k)
    with m MainFlow start to_join show ?thesis
      by (auto simp: exec_main_def pc_of_def split: if_splits)
  next
    case (Joining k)
    with m MainFlow join emit show ?thesis
      by (auto simp: exec_main_def pc_of_def split: if_splits)
  next
    case Exited
    with m show ?thesis by (simp add: exec_main_def)
  qed
next
  case (Worker i)
  with assms have w: "exec_worker v p f i c = Some c'" by simp
  then have i: "i < length (threads c)" by (simp add: exec_worker_def split: if_splits)
  obtain s q where t: "threads c ! i = (s, q)" by (cases "threads c ! i")
  then have q: "pc_of c i = q" and s: "fst (threads c ! i) = s" by (simp_all add: pc_of_def)
  show ?thesis
  proof (cases q)
    case NotStarted
    with w i t show ?thesis by (simp add: exec_worker_def)
  next
    case Ready
    obtain e out where fi: "fetch_info v s (p i) (f i) = (e, out)"
      by (cases "fetch_info v s (p i) (f i)")
    show ?thesis
    proof (cases e)
      case (Stores d)
      with fi have "fst (fetch_info v s (p i) (f i)) = Stores d" by simp
      from fetch_info_Stores [OF this] have d: "d = outcome v (p i)" "stores v (p i) (f i)"
        by simp_all
      from w i t Ready fi Stores d(1)
      have "c' = (set_pc i (Pending (outcome v (p i))) c)
              \<lparr>stderr := stderr c @ snd (fetch_info v (fst (threads c ! i)) (p i) (f i))\<rparr>"
        by (simp add: exec_worker_def)
      with fetch Worker i q Ready d(2) show ?thesis by simp
    next
      case Dies
      with fi have "fst (fetch_info v s (p i) (f i)) = Dies" by simp
      from fetch_info_Dies [OF this] have d: "\<not> stores v (p i) (f i)" .
      from w i t Ready fi Dies
      have "c' = (set_pc i Finished c)
              \<lparr>stderr := stderr c @ snd (fetch_info v (fst (threads c ! i)) (p i) (f i))\<rparr>"
        by (simp add: exec_worker_def)
      with die Worker i q Ready d show ?thesis by simp
    qed
  next
    case (Pending d)
    with w i t have "\<not> lock c"
      and "c' = (set_pc i (Critical d) c)\<lparr>lock := True, acquired := acquired c @ [i]\<rparr>"
      by (simp_all add: exec_worker_def split: if_splits)
    with acquire Worker i q Pending show ?thesis by simp
  next
    case (Critical d)
    with w i t have
      "c' = (set_pc i Wrote c)\<lparr>results := dict_set (results c) (fst (threads c ! i)) d\<rparr>"
      by (simp add: exec_worker_def)
    with store Worker i q Critical show ?thesis by simp
  next
    case Wrote
    with w i t have "c' = (set_pc i Finished c)\<lparr>lock := False\<rparr>"
      by (simp add: exec_worker_def)
    with release Worker i q Wrote show ?thesis by simp
  next
    case Finished
    with w i t show ?thesis by (simp add: exec_worker_def)
  qed
qed

lemma inv_threads_step:
  assumes inv: "inv_threads syms c" and ex: "exec v p f a c = Some c'"
  shows "inv_threads syms c'"
  using ex
proof (cases rule: exec_cases)
qed (use inv in \<open>simp_all add: inv_threads_def map_fst_set_pc del: set_pc_fields(1)\<close>)

lemma inv_main_step:
  assumes inv: "inv_main c" and ex: "exec v p f a c = Some c'"
  shows "inv_main c'"
  using ex
proof (cases rule: exec_cases)
  case (start k)
  with inv show ?thesis by (auto simp: inv_main_def pc_of_set_pc)
next
  case (to_join k)
  with inv show ?thesis by (auto simp: inv_main_def)
next
  case (join k)
  with inv show ?thesis by (auto simp: inv_main_def less_Suc_eq)
next
  case (emit k)
  with inv show ?thesis by (auto simp: inv_main_def)
next
  case (fetch i)
  with inv show ?thesis
    by (cases "main_pc c") (auto simp: inv_main_def pc_of_set_pc)
next
  case (die i)
  with inv show ?thesis
    by (cases "main_pc c") (auto simp: inv_main_def pc_of_set_pc)
next
  case (acquire i d)
  with inv show ?thesis
    by (cases "main_pc c") (auto simp: inv_main_def pc_of_set_pc)
next
  case (store i d)
  with inv show ?thesis
    by (cases "main_pc c") (auto simp: inv_main_def pc_of_set_pc)
next
  case (release i)
  with inv show ?thesis
    by (cases "main_pc c") (auto simp: inv_main_def pc_of_set_pc)
qed

lemma exec_start:
  "main_pc c = Starting k \<Longrightarrow> k < length (threads c) \<Longrightarrow> pc_of c k = NotStarted \<Longrightarrow>
   exec_main c = Some ((set_pc k Ready c)\<lparr>main_pc := Starting (Suc k)\<rparr>)"
  by (simp add: exec_main_def pc_of_def)

lemma exec_to_join:
  "main_pc c = Starting k \<Longrightarrow> \<not> k < length (threads c) \<Longrightarrow>
   exec_main c = Some (c\<lparr>main_pc := Joining 0\<rparr>)"
  by (simp add: exec_main_def)

lemma exec_join:
  "main_pc c = Joining k \<Longrightarrow> k < length (threads c) \<Longrightarrow> pc_of c k = Finished \<Longrightarrow>
   exec_main c = Some (c\<lparr>main_pc := Joining (Suc k)\<rparr>)"
  by (simp add: exec_main_def pc_of_def)

lemma exec_emit:
  "main_pc c = Joining k \<Longrightarrow> \<not> k < length (threads c) \<Longrightarrow>
   exec_main c = Some (c\<lparr>stdout := stdout c @ [dumps (results c)], main_pc := Exited\<rparr>)"
  by (simp add: exec_main_def)

lemma exec_fetch:
  "i < length (threads c) \<Longrightarrow> pc_of c i = Ready \<Longrightarrow> stores v (p i) (f i) \<Longrightarrow>
   exec_worker v p f i c
     = Some ((set_pc i (Pending (outcome v (p i))) c)
               \<lparr>stderr := stderr c @ snd (fetch_info v (fst (threads c ! i)) (p i) (f i))\<rparr>)"
proof -
  assume i: "i < length (threads c)" and q: "pc_of c i = Ready" and st: "stores v (p i) (f i)"
  obtain s q' where t: "threads c ! i = (s, q')" by (cases "threads c ! i")
  with q have q': "q' = Ready" by (simp add: pc_of_def)
  obtain e out where fi: "fetch_info v s (p i) (f i) = (e, out)"
    by (cases "fetch_info v s (p i) (f i)")
  with stores_fetch_info [OF st, of s] have "e = Stores (outcome v (p i))" by simp
  with i t q' fi show ?thesis by (simp add: exec_worker_def)
qed

lemma exec_die:
  "i < length (threads c) \<Longrightarrow> pc_of c i = Ready \<Longrightarrow> \<not> stores v (p i) (f i) \<Longrightarrow>
   exec_worker v p f i c
     = Some ((set_pc i Finished c)
               \<lparr>stderr := stderr c @ snd (fetch_info v (fst (threads c ! i)) (p i) (f i))\<rparr>)"
proof -
  assume i: "i < length (threads c)" and q: "pc_of c i = Ready" and st: "\<not> stores v (p i) (f i)"
  obtain s q' where t: "threads c ! i = (s, q')" by (cases "threads c ! i")
  with q have q': "q' = Ready" by (simp add: pc_of_def)
  obtain e out where fi: "fetch_info v s (p i) (f i) = (e, out)"
    by (cases "fetch_info v s (p i) (f i)")
  have "e = Dies"
  proof (cases e)
    case (Stores d)
    with fi have "fst (fetch_info v s (p i) (f i)) = Stores d" by simp
    from fetch_info_Stores [OF this] st show ?thesis by simp
  qed
  with i t q' fi show ?thesis by (simp add: exec_worker_def)
qed

lemma exec_acquire:
  "i < length (threads c) \<Longrightarrow> pc_of c i = Pending d \<Longrightarrow> \<not> lock c \<Longrightarrow>
   exec_worker v p f i c
     = Some ((set_pc i (Critical d) c)\<lparr>lock := True, acquired := acquired c @ [i]\<rparr>)"
  by (cases "threads c ! i") (simp add: exec_worker_def pc_of_def)

lemma exec_store:
  "i < length (threads c) \<Longrightarrow> pc_of c i = Critical d \<Longrightarrow>
   exec_worker v p f i c
     = Some ((set_pc i Wrote c)\<lparr>results := dict_set (results c) (fst (threads c ! i)) d\<rparr>)"
  by (cases "threads c ! i") (simp add: exec_worker_def pc_of_def)

lemma exec_release:
  "i < length (threads c) \<Longrightarrow> pc_of c i = Wrote \<Longrightarrow>
   exec_worker v p f i c = Some ((set_pc i Finished c)\<lparr>lock := False\<rparr>)"
  by (cases "threads c ! i") (simp add: exec_worker_def pc_of_def)

section \<open>The invariants hold in every reachable state\<close>

lemma inv_lock_same:
  assumes "inv_lock c" and "lock c' = lock c" and "length (threads c') = length (threads c)"
    and "\<And>j. j < length (threads c) \<Longrightarrow> in_cs (pc_of c' j) = in_cs (pc_of c j)"
  shows "inv_lock c'"
  using assms unfolding inv_lock_def by auto

lemma inv_lock_step:
  assumes inv: "inv_lock c" and ex: "exec v p f a c = Some c'"
  shows "inv_lock c'"
  using ex
proof (cases rule: exec_cases)
  case (start k)
  then show ?thesis by (intro inv_lock_same [OF inv]) (auto simp: pc_of_set_pc)
next
  case (to_join k)
  with inv show ?thesis by (simp add: inv_lock_def)
next
  case (join k)
  with inv show ?thesis by (simp add: inv_lock_def)
next
  case (emit k)
  with inv show ?thesis by (simp add: inv_lock_def)
next
  case (fetch i)
  then show ?thesis by (intro inv_lock_same [OF inv]) (auto simp: pc_of_set_pc)
next
  case (die i)
  then show ?thesis by (intro inv_lock_same [OF inv]) (auto simp: pc_of_set_pc)
next
  case (store i d)
  then show ?thesis by (intro inv_lock_same [OF inv]) (auto simp: pc_of_set_pc)
next
  case (acquire i d)
  with inv have none: "\<And>j. j < length (threads c) \<Longrightarrow> \<not> in_cs (pc_of c j)"
    by (auto simp: inv_lock_def)
  have "in_cs (pc_of c' j) = (j = i)" if "j < length (threads c)" for j
    using that none acquire by (simp add: pc_of_set_pc)
  moreover have "lock c'" "length (threads c') = length (threads c)"
    using acquire by simp_all
  ultimately show ?thesis
    using acquire(2) unfolding inv_lock_def by auto
next
  case (release i)
  with inv have u: "\<And>j. j < length (threads c) \<Longrightarrow> in_cs (pc_of c j) \<Longrightarrow> j = i"
    by (auto simp: inv_lock_def)
  have "\<not> in_cs (pc_of c' j)" if "j < length (threads c)" for j
    using that u [of j] release by (auto simp: pc_of_set_pc)
  moreover have "\<not> lock c'" "length (threads c') = length (threads c)"
    using release by simp_all
  ultimately show ?thesis
    unfolding inv_lock_def by auto
qed

lemma inv_pending_step:
  assumes inv: "inv_pending v p c" and ex: "exec v p f a c = Some c'"
  shows "inv_pending v p c'"
  using ex
proof (cases rule: exec_cases)
qed (use inv in \<open>auto simp: inv_pending_def pc_of_set_pc\<close>)

lemma inv_stores_step:
  assumes inv: "inv_stores v p f c" and ex: "exec v p f a c = Some c'"
  shows "inv_stores v p f c'"
  using ex
proof (cases rule: exec_cases)
qed (use inv in \<open>auto simp: inv_stores_def pc_of_set_pc\<close>)

lemma inv_acquired_same:
  assumes inv: "inv_acquired v p f c" and "acquired c' = acquired c"
    and "length (threads c') = length (threads c)"
    and "\<And>j. j < length (threads c) \<Longrightarrow>
           (in_cs (pc_of c' j) \<or> (pc_of c' j = Finished \<and> stores v (p j) (f j)))
             = (in_cs (pc_of c j) \<or> (pc_of c j = Finished \<and> stores v (p j) (f j)))"
    and "\<And>j d. j < length (threads c) \<Longrightarrow> pc_of c' j = Critical d \<Longrightarrow> pc_of c j = Critical d"
  shows "inv_acquired v p f c'"
proof -
  from inv have dis: "distinct (acquired c)"
    and st: "set (acquired c)
              = {i. i < length (threads c)
                    \<and> (in_cs (pc_of c i) \<or> (pc_of c i = Finished \<and> stores v (p i) (f i)))}"
    and la: "\<And>i d. i < length (threads c) \<Longrightarrow> pc_of c i = Critical d \<Longrightarrow>
               acquired c \<noteq> [] \<and> last (acquired c) = i"
    by (auto simp: inv_acquired_def)
  have "{i. i < length (threads c)
            \<and> (in_cs (pc_of c i) \<or> (pc_of c i = Finished \<and> stores v (p i) (f i)))}
          = {i. i < length (threads c')
                \<and> (in_cs (pc_of c' i) \<or> (pc_of c' i = Finished \<and> stores v (p i) (f i)))}"
    using assms(3,4) by auto
  with st have "set (acquired c')
      = {i. i < length (threads c')
            \<and> (in_cs (pc_of c' i) \<or> (pc_of c' i = Finished \<and> stores v (p i) (f i)))}"
    using assms(2) by simp
  moreover have "distinct (acquired c')" using dis assms(2) by simp
  moreover have "acquired c' \<noteq> [] \<and> last (acquired c') = j"
    if "j < length (threads c')" "pc_of c' j = Critical d" for j d
    using la [of j d] assms(5) [of j d] that assms(2,3) by simp
  ultimately show ?thesis unfolding inv_acquired_def by blast
qed

lemma inv_acquired_step:
  assumes inv: "inv_acquired v p f c" and lk: "inv_lock c" and st: "inv_stores v p f c"
    and ex: "exec v p f a c = Some c'"
  shows "inv_acquired v p f c'"
  using ex
proof (cases rule: exec_cases)
  case (start k)
  then show ?thesis by (intro inv_acquired_same [OF inv]) (auto simp: pc_of_set_pc split: if_splits)
next
  case (to_join k)
  with inv show ?thesis by (simp add: inv_acquired_def)
next
  case (join k)
  with inv show ?thesis by (simp add: inv_acquired_def)
next
  case (emit k)
  with inv show ?thesis by (simp add: inv_acquired_def)
next
  case (fetch i)
  then show ?thesis by (intro inv_acquired_same [OF inv]) (auto simp: pc_of_set_pc split: if_splits)
next
  case (die i)
  then show ?thesis by (intro inv_acquired_same [OF inv]) (auto simp: pc_of_set_pc split: if_splits)
next
  case (store i d)
  then show ?thesis by (intro inv_acquired_same [OF inv]) (auto simp: pc_of_set_pc split: if_splits)
next
  case (release i)
  with st have "stores v (p i) (f i)" by (simp add: inv_stores_def)
  with release show ?thesis
    by (intro inv_acquired_same [OF inv]) (auto simp: pc_of_set_pc split: if_splits)
next
  case (acquire i d)
  from inv have dis: "distinct (acquired c)"
    and mem: "set (acquired c)
              = {i. i < length (threads c)
                    \<and> (in_cs (pc_of c i) \<or> (pc_of c i = Finished \<and> stores v (p i) (f i)))}"
    by (auto simp: inv_acquired_def)
  from lk acquire have nocs: "\<And>j. j < length (threads c) \<Longrightarrow> \<not> in_cs (pc_of c j)"
    by (auto simp: inv_lock_def)
  have nin: "i \<notin> set (acquired c)" using mem acquire by simp
  have acq: "acquired c' = acquired c @ [i]" and len: "length (threads c') = length (threads c)"
    using acquire by simp_all
  have pcs: "pc_of c' j = (if j = i then Critical d else pc_of c j)" for j
    using acquire by (simp add: pc_of_set_pc)
  have "distinct (acquired c')" using dis nin acq by simp
  moreover have "set (acquired c')
      = {j. j < length (threads c')
            \<and> (in_cs (pc_of c' j) \<or> (pc_of c' j = Finished \<and> stores v (p j) (f j)))}"
    unfolding acq len using mem acquire(2) by (auto simp: pcs)
  moreover have "acquired c' \<noteq> [] \<and> last (acquired c') = j"
    if "j < length (threads c')" "pc_of c' j = Critical e" for j e
  proof (cases "j = i")
    case True
    then show ?thesis by (simp add: acq)
  next
    case False
    with that have "in_cs (pc_of c j)" by (simp add: pcs)
    with nocs that(1) len show ?thesis by simp
  qed
  ultimately show ?thesis unfolding inv_acquired_def by blast
qed

lemma replay_snoc:
  "replay v p syms (ws @ [i]) = dict_set (replay v p syms ws) (syms ! i) (outcome v (p i))"
  by (simp add: replay_def)

lemma inv_results_step:
  assumes inv: "inv_results v p syms c" and th: "inv_threads syms c" and pe: "inv_pending v p c"
    and ac: "inv_acquired v p f c" and ex: "exec v p f a c = Some c'"
  shows "inv_results v p syms c'"
proof -
  have same: "inv_results v p syms c'"
    if "results c' = results c" "acquired c' = acquired c"
      "\<And>j. j \<in> set (acquired c) \<Longrightarrow> written (pc_of c' j) = written (pc_of c j)"
  proof -
    have "filter (\<lambda>i. written (pc_of c' i)) (acquired c) = filter (\<lambda>i. written (pc_of c i)) (acquired c)"
      using that(3) by (auto intro: filter_cong)
    with inv that(1,2) show ?thesis by (simp add: inv_results_def)
  qed
  from ex show ?thesis
  proof (cases rule: exec_cases)
    case (start k)
    then show ?thesis by (intro same) (auto simp: pc_of_set_pc)
  next
    case (to_join k)
    then show ?thesis by (intro same) auto
  next
    case (join k)
    then show ?thesis by (intro same) auto
  next
    case (emit k)
    then show ?thesis by (intro same) auto
  next
    case (fetch i)
    then show ?thesis by (intro same) (auto simp: pc_of_set_pc)
  next
    case (release i)
    then show ?thesis by (intro same) (auto simp: pc_of_set_pc)
  next
    case (die i)
    from ac die have "i \<notin> set (acquired c)" by (auto simp: inv_acquired_def)
    with die show ?thesis by (intro same) (auto simp: pc_of_set_pc)
  next
    case (acquire i d)
    from ac acquire have "i \<notin> set (acquired c)" by (auto simp: inv_acquired_def)
    then have "filter (\<lambda>j. written (pc_of c' j)) (acquired c)
                 = filter (\<lambda>j. written (pc_of c j)) (acquired c)"
      using acquire by (intro filter_cong) (auto simp: pc_of_set_pc)
    moreover have "\<not> written (pc_of c' i)" using acquire by (simp add: pc_of_set_pc)
    ultimately show ?thesis using inv acquire by (simp add: inv_results_def)
  next
    case (store i d)
    from ac store have ne: "acquired c \<noteq> []" and li: "last (acquired c) = i"
      and dis: "distinct (acquired c)"
      by (auto simp: inv_acquired_def)
    define bs where "bs = butlast (acquired c)"
    have acq: "acquired c = bs @ [i]"
      using ne li append_butlast_last_id [of "acquired c"] by (simp add: bs_def)
    then have nin: "i \<notin> set bs" using dis by simp
    have f: "filter (\<lambda>j. written (pc_of c' j)) bs = filter (\<lambda>j. written (pc_of c j)) bs"
      using store nin by (intro filter_cong) (auto simp: pc_of_set_pc)
    have d: "d = outcome v (p i)" using pe store by (simp add: inv_pending_def)
    have s: "fst (threads c ! i) = syms ! i"
      using th store(2) by (auto simp: inv_threads_def)
    have old: "results c = replay v p syms (filter (\<lambda>j. written (pc_of c j)) bs)"
      using inv store by (simp add: inv_results_def acq)
    have "results c' = dict_set (results c) (syms ! i) (outcome v (p i))"
      using store d s by simp
    also have "\<dots> = replay v p syms (filter (\<lambda>j. written (pc_of c j)) bs @ [i])"
      by (simp add: old replay_snoc)
    also have "\<dots> = replay v p syms (filter (\<lambda>j. written (pc_of c' j)) (acquired c'))"
      using store f by (simp add: acq pc_of_set_pc)
    finally show ?thesis by (simp add: inv_results_def)
  qed
qed

lemma inv_stdout_step:
  assumes inv: "inv_stdout c" and mn: "inv_main c" and ex: "exec v p f a c = Some c'"
  shows "inv_stdout c'"
  using ex
proof (cases rule: exec_cases)
  case (store i d)
  with mn have "main_pc c \<noteq> Exited" by (auto simp: inv_main_def)
  with inv store show ?thesis by (simp add: inv_stdout_def)
qed (use inv in \<open>auto simp: inv_stdout_def\<close>)

lemma invariant_init: "invariant v p f syms (init syms)"
  by (simp add: invariant_def init_def inv_threads_def inv_main_def inv_lock_def inv_pending_def
      inv_stores_def inv_acquired_def inv_results_def inv_stdout_def pc_of_def replay_def comp_def)

lemma invariant_step:
  assumes "invariant v p f syms c" and "exec v p f a c = Some c'"
  shows "invariant v p f syms c'"
proof -
  note ex = assms(2)
  from assms(1) have i: "inv_threads syms c" "inv_main c" "inv_lock c" "inv_pending v p c"
    "inv_stores v p f c" "inv_acquired v p f c" "inv_results v p syms c" "inv_stdout c"
    by (simp_all add: invariant_def)
  show ?thesis
    unfolding invariant_def
    using inv_threads_step [OF i(1) ex] inv_main_step [OF i(2) ex] inv_lock_step [OF i(3) ex]
      inv_pending_step [OF i(4) ex] inv_stores_step [OF i(5) ex]
      inv_acquired_step [OF i(6) i(3) i(5) ex]
      inv_results_step [OF i(7) i(1) i(4) i(6) ex] inv_stdout_step [OF i(8) i(2) ex]
    by simp
qed

lemma reachable_invariant: "reachable v p f syms c \<Longrightarrow> invariant v p f syms c"
  by (induction rule: reachable.induct) (auto intro: invariant_init invariant_step)

section \<open>The results as a replay of the assignments\<close>

lemma keys_replay: "set (keys (replay v p syms ws)) = (\<lambda>i. syms ! i) ` set ws"
  by (induction ws rule: rev_induct) (auto simp: replay_snoc keys_dict_set, simp add: replay_def keys_def)

lemma distinct_keys_replay: "distinct (keys (replay v p syms ws))"
  by (induction ws rule: rev_induct) (simp_all add: replay_snoc distinct_dict_set, simp add: replay_def keys_def)

lemma dict_get_replay:
  "dict_get (replay v p syms ws) s =
     (case filter (\<lambda>i. syms ! i = s) ws of
        [] \<Rightarrow> None
      | i # is \<Rightarrow> Some (outcome v (p (last (i # is)))))"
proof (induction ws rule: rev_induct)
  case Nil
  then show ?case by (simp add: replay_def dict_get_def)
next
  case (snoc w ws)
  then show ?case
    by (auto simp: replay_snoc dict_get_dict_set split: list.splits)
qed

lemma dict_get_keys: "(dict_get d k \<noteq> None) = (k \<in> set (keys d))"
  by (simp add: dict_get_def keys_def map_of_eq_None_iff)

text \<open>What the invariants say once every thread has finished.\<close>

lemma all_finished:
  assumes r: "reachable v p f syms c" and fin: "\<forall>i<length syms. pc_of c i = Finished"
  shows "length (threads c) = length syms" and "distinct (acquired c)"
    and "set (acquired c) = {i. i < length syms \<and> stores v (p i) (f i)}"
    and "results c = replay v p syms (acquired c)"
    and "\<not> lock c"
proof -
  from reachable_invariant [OF r] have th: "inv_threads syms c" and lk: "inv_lock c"
    and ac: "inv_acquired v p f c" and rs: "inv_results v p syms c"
    by (simp_all add: invariant_def)
  from th show len: "length (threads c) = length syms"
    by (auto simp: inv_threads_def)
  from ac show "distinct (acquired c)" by (simp add: inv_acquired_def)
  from ac have "set (acquired c)
      = {i. i < length (threads c)
            \<and> (in_cs (pc_of c i) \<or> (pc_of c i = Finished \<and> stores v (p i) (f i)))}"
    by (simp add: inv_acquired_def)
  with fin len show st: "set (acquired c) = {i. i < length syms \<and> stores v (p i) (f i)}"
    by auto
  have "filter (\<lambda>i. written (pc_of c i)) (acquired c) = acquired c"
    using st fin by (auto intro!: filter_True)
  with rs show "results c = replay v p syms (acquired c)" by (simp add: inv_results_def)
  from lk fin len show "\<not> lock c" by (auto simp: inv_lock_def)
qed

lemma Exited_all_finished:
  assumes "reachable v p f syms c" and "main_pc c = Exited"
  shows "\<forall>i<length syms. pc_of c i = Finished"
proof -
  from reachable_invariant [OF assms(1)] have "inv_threads syms c" "inv_main c"
    by (simp_all add: invariant_def)
  with assms(2) show ?thesis by (auto simp: inv_threads_def inv_main_def)
qed

lemma run_reachable:
  "reachable v p f syms c \<Longrightarrow> run v p f sched c = Some c' \<Longrightarrow> reachable v p f syms c'"
proof (induction sched arbitrary: c)
  case Nil
  then show ?case by simp
next
  case (Cons a sched)
  then show ?case
    by (auto split: option.splits intro: reachable_step)
qed

lemma results_entries:
  assumes r: "reachable v p f syms c" and m: "(s, d) \<in> set (results c)"
  shows "\<exists>i<length syms. syms ! i = s \<and> d = outcome v (p i) \<and> stores v (p i) (f i)"
proof -
  from reachable_invariant [OF r] have th: "inv_threads syms c" and ac: "inv_acquired v p f c"
    and st: "inv_stores v p f c" and rs: "inv_results v p syms c"
    by (simp_all add: invariant_def)
  define ws where "ws = filter (\<lambda>i. written (pc_of c i)) (acquired c)"
  have res: "results c = replay v p syms ws" using rs by (simp add: inv_results_def ws_def)
  have len: "length (threads c) = length syms" using th by (auto simp: inv_threads_def)
  have bound: "i < length syms \<and> stores v (p i) (f i)" if "i \<in> set ws" for i
  proof -
    from that have "i \<in> set (acquired c)" by (simp add: ws_def)
    with ac have i: "i < length (threads c)"
      "in_cs (pc_of c i) \<or> (pc_of c i = Finished \<and> stores v (p i) (f i))"
      by (auto simp: inv_acquired_def)
    have "stores v (p i) (f i)"
    proof (cases "in_cs (pc_of c i)")
      case True
      then have "going_to_store (pc_of c i)" by (cases "pc_of c i") simp_all
      with st i(1) show ?thesis by (simp add: inv_stores_def)
    next
      case False
      with i(2) show ?thesis by simp
    qed
    with i(1) len show ?thesis by simp
  qed
  have "dict_get (results c) s = Some d"
    using m by (intro in_set_dict_get) (simp_all add: res distinct_keys_replay)
  then obtain i "is" where fl: "filter (\<lambda>i. syms ! i = s) ws = i # is"
    and d: "d = outcome v (p (last (i # is)))"
    by (auto simp: res dict_get_replay split: list.splits)
  have "last (i # is) \<in> set (filter (\<lambda>i. syms ! i = s) ws)"
    unfolding fl by (rule last_in_set) simp
  then have "last (i # is) \<in> set ws" "syms ! last (i # is) = s" by simp_all
  with bound [of "last (i # is)"] d show ?thesis by blast
qed

lemma final_entry:
  assumes r: "reachable v p f syms c" and fin: "\<forall>i<length syms. pc_of c i = Finished"
    and j: "j < length syms" "syms ! j = s" "stores v (p j) (f j)"
  shows "filter (\<lambda>i. syms ! i = s) (acquired c) \<noteq> []"
    and "last (filter (\<lambda>i. syms ! i = s) (acquired c)) < length syms"
    and "syms ! last (filter (\<lambda>i. syms ! i = s) (acquired c)) = s"
    and "stores v (p (last (filter (\<lambda>i. syms ! i = s) (acquired c))))
           (f (last (filter (\<lambda>i. syms ! i = s) (acquired c))))"
    and "dict_get (results c) s
           = Some (outcome v (p (last (filter (\<lambda>i. syms ! i = s) (acquired c)))))"
proof -
  let ?ws = "filter (\<lambda>i. syms ! i = s) (acquired c)"
  from j all_finished(3) [OF r fin] have "j \<in> set ?ws" by simp
  then have "0 < length ?ws" by (rule length_pos_if_in_set)
  then show ne: "?ws \<noteq> []" by (rule iffD1 [OF length_greater_0_conv])
  then have "last ?ws \<in> set ?ws" by (rule last_in_set)
  then have l: "last ?ws \<in> set (acquired c)" "syms ! last ?ws = s" by simp_all
  from l(1) all_finished(3) [OF r fin] show "last ?ws < length syms"
    and "stores v (p (last ?ws)) (f (last ?ws))"
    by simp_all
  from l(2) show "syms ! last ?ws = s" .
  from ne obtain i "is" where "?ws = i # is" by (cases ?ws) auto
  then show "dict_get (results c) s = Some (outcome v (p (last ?ws)))"
    using all_finished(4) [OF r fin] by (simp add: dict_get_replay)
qed


lemma final_keys:
  assumes r: "reachable v p f syms c" and fin: "\<forall>i<length syms. pc_of c i = Finished"
  shows "set (keys (results c)) = {syms ! i |i. i < length syms \<and> stores v (p i) (f i)}"
  using all_finished(3,4) [OF r fin] by (auto simp: keys_replay)

lemma distinct_singleton: "distinct xs \<Longrightarrow> set xs = {a} \<Longrightarrow> xs = [a]"
proof (cases xs)
  case Nil
  assume "set xs = {a}"
  with Nil show ?thesis by simp
next
  case (Cons x ys)
  assume d: "distinct xs" and s: "set xs = {a}"
  from s Cons have x: "x = a" by auto
  from d Cons have notin: "x \<notin> set ys" by simp
  from s Cons have sub: "set ys \<subseteq> {a}" by auto
  have "ys = []"
  proof (cases ys)
    case Nil
    then show ?thesis .
  next
    case (Cons y zs)
    then have y: "y \<in> set ys" by simp
    with sub have "y = a" by blast
    with y notin x show ?thesis by simp
  qed
  with Cons x show ?thesis by simp
qed

section \<open>Progress and termination\<close>

lemma rank_set_pc:
  assumes "i < length (threads c)"
  shows "sum_list (map (\<lambda>t. pc_rank (snd t)) (threads (set_pc i q c))) + pc_rank (pc_of c i)
           = sum_list (map (\<lambda>t. pc_rank (snd t)) (threads c)) + pc_rank q"
proof -
  have upd: "i < length xs \<Longrightarrow>
          sum_list (map f (xs[i := y])) + f (xs ! i) = sum_list (map f xs) + f y"
    for xs :: "(string \<times> pc) list" and f :: "string \<times> pc \<Rightarrow> nat" and y
    by (induction xs arbitrary: i) (auto split: nat.splits)
  from upd [OF assms, where f = "\<lambda>t. pc_rank (snd t)" and y = "(fst (threads c ! i), q)"]
  show ?thesis by (simp add: pc_of_def)
qed

lemma remaining_step:
  assumes r: "reachable v p f syms c" and ex: "exec v p f a c = Some c'"
  shows "remaining c' < remaining c"
proof -
  from reachable_invariant [OF r] have mn: "inv_main c" by (simp add: invariant_def)
  from ex show ?thesis
  proof (cases rule: exec_cases)
    case (start k)
    with rank_set_pc [of k c Ready] show ?thesis
      by (simp add: remaining_def length_set_pc del: set_pc_fields(1))
  next
    case (to_join k)
    with mn have "k = length (threads c)" by (simp add: inv_main_def)
    with to_join show ?thesis by (simp add: remaining_def)
  next
    case (join k)
    then show ?thesis by (simp add: remaining_def Suc_diff_Suc)
  next
    case (emit k)
    then show ?thesis by (simp add: remaining_def)
  next
    case (fetch i)
    with rank_set_pc [of i c "Pending (outcome v (p i))"] show ?thesis
      by (simp add: remaining_def length_set_pc del: set_pc_fields(1))
  next
    case (die i)
    with rank_set_pc [of i c Finished] show ?thesis
      by (simp add: remaining_def length_set_pc del: set_pc_fields(1))
  next
    case (acquire i d)
    with rank_set_pc [of i c "Critical d"] show ?thesis
      by (simp add: remaining_def length_set_pc del: set_pc_fields(1))
  next
    case (store i d)
    with rank_set_pc [of i c Wrote] show ?thesis
      by (simp add: remaining_def length_set_pc del: set_pc_fields(1))
  next
    case (release i)
    with rank_set_pc [of i c Finished] show ?thesis
      by (simp add: remaining_def length_set_pc del: set_pc_fields(1))
  qed
qed




lemma Exited_no_step:
  assumes r: "reachable v p f syms c" and e: "main_pc c = Exited"
  shows "exec v p f a c = None"
proof (rule ccontr)
  assume "exec v p f a c \<noteq> None"
  then obtain c' where "exec v p f a c = Some c'" by blast
  from remaining_step [OF r this] have "0 < remaining c" by simp
  moreover from reachable_invariant [OF r] have "inv_main c" by (simp add: invariant_def)
  with e have fin: "\<forall>i<length (threads c). snd (threads c ! i) = Finished"
    by (simp add: inv_main_def pc_of_def)
  have "\<forall>t\<in>set (threads c). pc_rank (snd t) = 0"
  proof
    fix t assume "t \<in> set (threads c)"
    then obtain i where "i < length (threads c)" "threads c ! i = t"
      by (auto simp: in_set_conv_nth)
    with fin have "snd t = Finished" by auto
    then show "pc_rank (snd t) = 0" by simp
  qed
  then have "sum_list (map (\<lambda>t. pc_rank (snd t)) (threads c)) = 0" by simp
  with e have "remaining c = 0" by (simp add: remaining_def)
  ultimately show False by simp
qed

lemma Exited_stdout:
  assumes "reachable v p f syms c" and "main_pc c = Exited"
  shows "stdout c = [dumps (results c)]"
proof -
  from reachable_invariant [OF assms(1)] have "inv_stdout c" by (simp add: invariant_def)
  with assms(2) show ?thesis by (simp add: inv_stdout_def)
qed

section \<open>Runs under the same schedule\<close>

lemma same_control_length: "same_control c1 c2 \<Longrightarrow> length (threads c1) = length (threads c2)"
  unfolding same_control_def by (auto dest: map_eq_imp_length_eq)

lemma same_control_nth:
  assumes "same_control c1 c2" and "i < length (threads c1)"
  shows "fst (threads c1 ! i) = fst (threads c2 ! i)" and "stage (pc_of c1 i) = stage (pc_of c2 i)"
proof -
  let ?f = "\<lambda>t :: string \<times> pc. (fst t, stage (snd t))"
  from assms(1) have m: "map ?f (threads c1) = map ?f (threads c2)" by (simp add: same_control_def)
  from assms have i2: "i < length (threads c2)" by (simp add: same_control_length)
  from m have "map ?f (threads c1) ! i = map ?f (threads c2) ! i" by simp
  with assms(2) i2 have "?f (threads c1 ! i) = ?f (threads c2 ! i)" by simp
  then show "fst (threads c1 ! i) = fst (threads c2 ! i)"
    and "stage (pc_of c1 i) = stage (pc_of c2 i)"
    by (simp_all add: pc_of_def)
qed

lemma same_control_set_pc:
  assumes "same_control c1 c2" and "stage q1 = stage q2"
  shows "map (\<lambda>t. (fst t, stage (snd t))) (threads (set_pc i q1 c1))
           = map (\<lambda>t. (fst t, stage (snd t))) (threads (set_pc i q2 c2))"
proof (cases "i < length (threads c1)")
  case True
  from same_control_nth(1) [OF assms(1) True] assms show ?thesis
    by (simp add: same_control_def map_update)
next
  case False
  with same_control_length [OF assms(1)] assms(1) show ?thesis
    by (simp add: same_control_def list_update_beyond)
qed

lemma stage_cases:
  "(stage q = 0) = (q = NotStarted)" "(stage q = 1) = (q = Ready)"
  "(stage q = 2) = (\<exists>d. q = Pending d)" "(stage q = 3) = (\<exists>d. q = Critical d)"
  "(stage q = 4) = (q = Wrote)" "(stage q = 5) = (q = Finished)"
  by (cases q; simp)+

lemma exec_length:
  assumes "exec v p f a c = Some c'"
  shows "length (threads c') = length (threads c)"
  using assms by (cases rule: exec_cases) simp_all

lemma same_control_step:
  assumes sc: "same_control c1 c2" and ex: "exec v p f a c1 = Some c1'"
    and eq: "\<forall>i<length (threads c1). stores v (p' i) (f' i) = stores v (p i) (f i)"
  shows "\<exists>c2'. exec v p' f' a c2 = Some c2' \<and> same_control c1' c2'"
proof -
  note len = same_control_length [OF sc]
  from sc have flds: "main_pc c1 = main_pc c2" "lock c1 = lock c2" "acquired c1 = acquired c2"
    by (simp_all add: same_control_def)
  from ex show ?thesis
  proof (cases rule: exec_cases)
    case (start k)
    from same_control_nth(2) [OF sc start(3)] start(4) have "pc_of c2 k = NotStarted"
      by (simp add: stage_cases [symmetric])
    moreover have "main_pc c2 = Starting k" using start(2) flds(1) by simp
    moreover have "k < length (threads c2)" using start(3) len by simp
    ultimately have "exec_main c2 = Some ((set_pc k Ready c2)\<lparr>main_pc := Starting (Suc k)\<rparr>)"
      by (intro exec_start)
    with start(1) have "exec v p' f' a c2 = Some ((set_pc k Ready c2)\<lparr>main_pc := Starting (Suc k)\<rparr>)"
      by simp
    moreover have "same_control c1' ((set_pc k Ready c2)\<lparr>main_pc := Starting (Suc k)\<rparr>)"
      using start(5) flds same_control_set_pc [OF sc, of Ready Ready k]
      by (simp add: same_control_def del: set_pc_fields(1))
    ultimately show ?thesis by blast
  next
    case (to_join k)
    have "main_pc c2 = Starting k" using to_join(2) flds(1) by simp
    moreover have "\<not> k < length (threads c2)" using to_join(3) len by simp
    ultimately have "exec_main c2 = Some (c2\<lparr>main_pc := Joining 0\<rparr>)"
      by (intro exec_to_join)
    with to_join(1) have "exec v p' f' a c2 = Some (c2\<lparr>main_pc := Joining 0\<rparr>)"
      by simp
    moreover have "same_control c1' (c2\<lparr>main_pc := Joining 0\<rparr>)"
      using to_join(4) sc by (simp add: same_control_def)
    ultimately show ?thesis by blast
  next
    case (join k)
    from same_control_nth(2) [OF sc join(3)] join(4) have "pc_of c2 k = Finished"
      by (simp add: stage_cases [symmetric])
    moreover have "main_pc c2 = Joining k" using join(2) flds(1) by simp
    moreover have "k < length (threads c2)" using join(3) len by simp
    ultimately have "exec_main c2 = Some (c2\<lparr>main_pc := Joining (Suc k)\<rparr>)"
      by (intro exec_join)
    with join(1) have "exec v p' f' a c2 = Some (c2\<lparr>main_pc := Joining (Suc k)\<rparr>)"
      by simp
    moreover have "same_control c1' (c2\<lparr>main_pc := Joining (Suc k)\<rparr>)"
      using join(5) sc by (simp add: same_control_def)
    ultimately show ?thesis by blast
  next
    case (emit k)
    have "main_pc c2 = Joining k" using emit(2) flds(1) by simp
    moreover have "\<not> k < length (threads c2)" using emit(3) len by simp
    ultimately have "exec_main c2
        = Some (c2\<lparr>stdout := stdout c2 @ [dumps (results c2)], main_pc := Exited\<rparr>)"
      by (intro exec_emit)
    with emit(1) have "exec v p' f' a c2
        = Some (c2\<lparr>stdout := stdout c2 @ [dumps (results c2)], main_pc := Exited\<rparr>)"
      by simp
    moreover have "same_control c1'
        (c2\<lparr>stdout := stdout c2 @ [dumps (results c2)], main_pc := Exited\<rparr>)"
      using emit(4) sc by (simp add: same_control_def)
    ultimately show ?thesis by blast
  next
    case (fetch i)
    let ?c2' = "(set_pc i (Pending (outcome v (p' i))) c2)
                  \<lparr>stderr := stderr c2 @ snd (fetch_info v (fst (threads c2 ! i)) (p' i) (f' i))\<rparr>"
    from same_control_nth(2) [OF sc fetch(2)] fetch(3) have "pc_of c2 i = Ready"
      by (simp add: stage_cases [symmetric])
    moreover have "i < length (threads c2)" using fetch(2) len by simp
    moreover have "stores v (p' i) (f' i)" using fetch(2,4) eq by simp
    ultimately have "exec_worker v p' f' i c2 = Some ?c2'" by (intro exec_fetch)
    with fetch(1) have "exec v p' f' a c2 = Some ?c2'" by simp
    moreover have "same_control c1' ?c2'"
      using fetch(5) flds
        same_control_set_pc [OF sc, of "Pending (outcome v (p i))" "Pending (outcome v (p' i))" i]
      by (simp add: same_control_def del: set_pc_fields(1))
    ultimately show ?thesis by blast
  next
    case (die i)
    let ?c2' = "(set_pc i Finished c2)
                  \<lparr>stderr := stderr c2 @ snd (fetch_info v (fst (threads c2 ! i)) (p' i) (f' i))\<rparr>"
    from same_control_nth(2) [OF sc die(2)] die(3) have "pc_of c2 i = Ready"
      by (simp add: stage_cases [symmetric])
    moreover have "i < length (threads c2)" using die(2) len by simp
    moreover have "\<not> stores v (p' i) (f' i)" using die(2,4) eq by simp
    ultimately have "exec_worker v p' f' i c2 = Some ?c2'" by (intro exec_die)
    with die(1) have "exec v p' f' a c2 = Some ?c2'" by simp
    moreover have "same_control c1' ?c2'"
      using die(5) flds same_control_set_pc [OF sc, of Finished Finished i]
      by (simp add: same_control_def del: set_pc_fields(1))
    ultimately show ?thesis by blast
  next
    case (acquire i d)
    from same_control_nth(2) [OF sc acquire(2)] acquire(3) have "stage (pc_of c2 i) = 2" by simp
    then obtain d' where d': "pc_of c2 i = Pending d'" using stage_cases(3) by blast
    let ?c2' = "(set_pc i (Critical d') c2)\<lparr>lock := True, acquired := acquired c2 @ [i]\<rparr>"
    from d' acquire flds len have "exec v p' f' a c2 = Some ?c2'" by (simp add: exec_acquire)
    moreover have "same_control c1' ?c2'"
      using acquire(5) flds same_control_set_pc [OF sc, of "Critical d" "Critical d'" i]
      by (simp add: same_control_def del: set_pc_fields(1))
    ultimately show ?thesis by blast
  next
    case (store i d)
    from same_control_nth(2) [OF sc store(2)] store(3) have "stage (pc_of c2 i) = 3" by simp
    then obtain d' where d': "pc_of c2 i = Critical d'" using stage_cases(4) by blast
    let ?c2' = "(set_pc i Wrote c2)\<lparr>results := dict_set (results c2) (fst (threads c2 ! i)) d'\<rparr>"
    from d' store len have "exec v p' f' a c2 = Some ?c2'" by (simp add: exec_store)
    moreover have "same_control c1' ?c2'"
      using store(4) flds same_control_set_pc [OF sc, of Wrote Wrote i]
      by (simp add: same_control_def del: set_pc_fields(1))
    ultimately show ?thesis by blast
  next
    case (release i)
    from same_control_nth(2) [OF sc release(2)] release(3) have "pc_of c2 i = Wrote"
      by (simp add: stage_cases [symmetric])
    with release len have "exec v p' f' a c2 = Some ((set_pc i Finished c2)\<lparr>lock := False\<rparr>)"
      by (simp add: exec_release)
    moreover have "same_control c1' ((set_pc i Finished c2)\<lparr>lock := False\<rparr>)"
      using release(4) flds same_control_set_pc [OF sc, of Finished Finished i]
      by (simp add: same_control_def del: set_pc_fields(1))
    ultimately show ?thesis by blast
  qed
qed

lemma same_control_run:
  "same_control c1 c2 \<Longrightarrow> run v p f sched c1 = Some c1' \<Longrightarrow>
   \<forall>i<length (threads c1). stores v (p' i) (f' i) = stores v (p i) (f i) \<Longrightarrow>
   \<exists>c2'. run v p' f' sched c2 = Some c2' \<and> same_control c1' c2'"
proof (induction sched arbitrary: c1 c2)
  case Nil
  then show ?case by simp
next
  case (Cons a sched)
  from Cons.prems(2) obtain d1 where d1: "exec v p f a c1 = Some d1" "run v p f sched d1 = Some c1'"
    by (auto split: option.splits)
  from same_control_step [OF Cons.prems(1) d1(1) Cons.prems(3)] obtain d2 where
    d2: "exec v p' f' a c2 = Some d2" "same_control d1 d2"
    by blast
  have "\<forall>i<length (threads d1). stores v (p' i) (f' i) = stores v (p i) (f i)"
    using Cons.prems(3) exec_length [OF d1(1)] by simp
  from Cons.IH [OF d2(2) d1(2) this] obtain c2' where
    "run v p' f' sched d2 = Some c2'" "same_control c1' c2'"
    by blast
  with d2(1) show ?case by simp
qed

lemma keys_replay_provider: "keys (replay v p syms ws) = keys (replay v p' syms ws)"
proof (induction ws rule: rev_induct)
  case Nil
  then show ?case by (simp add: replay_def)
next
  case (snoc w ws)
  then show ?case
    by (simp add: replay_snoc keys_def dict_set_def AList.update_keys)
qed

section \<open>Example runs\<close>

lemma outcome_aapl: "outcome Extended aapl_response = aapl_record"
  using aapl_fetch by (simp add: outcome_def)

lemma fetch_info_aapl:
  "fetch_info Extended s aapl_response NoFault = (Stores aapl_record, [])"
  "fetch_info Extended s aapl_response StderrWriteRaises = (Stores aapl_record, [])"
  using aapl_fetch by (simp_all add: fetch_info_def)

lemma fetch_not_found:
  "fetch_try v not_found_response = Inl (PyExc False ''No data found for ZZZZINVALID'' ''Traceback'')"
  by (simp add: fetch_try_def not_found_response_def)

lemma outcome_not_found:
  "outcome v not_found_response = [(''error'', JStr ''No data found for ZZZZINVALID'')]"
  by (simp add: outcome_def fetch_not_found error_entry_def error_message_def)

lemma fetch_info_not_found:
  "fst (fetch_info v s not_found_response NoFault)
     = Stores [(''error'', JStr ''No data found for ZZZZINVALID'')]"
  "fst (fetch_info v s not_found_response StderrWriteRaises) = Dies"
  by (simp_all add: fetch_info_def fetch_not_found error_entry_def error_message_def)

lemma fetch_timeout:
  "fetch_try v timeout_response = Inl (PyExc True ''429 Too Many Requests'' ''Traceback'')"
  by (simp add: fetch_try_def timeout_response_def)

lemma fetch_info_timeout:
  "fst (fetch_info Extended s timeout_response NoFault)
     = Stores [(''error'', JStr ''HTTPError: 429 Too Many Requests'')]"
  "fst (fetch_info v s timeout_response StderrWriteRaises) = Dies"
  by (simp_all add: fetch_info_def fetch_timeout error_entry_def error_message_def)

lemma sequential_2: "sequential 2 = [MainFlow, MainFlow, MainFlow, Worker 0, Worker 0, Worker 0, Worker 0,
   Worker 1, Worker 1, Worker 1, Worker 1, MainFlow, MainFlow, MainFlow]"
  by (simp add: sequential_def numeral_2_eq_2 numeral_Bit0 upt_rec)

lemma sequential_1: "sequential (Suc 0) = [MainFlow, MainFlow, Worker 0, Worker 0, Worker 0, Worker 0,
   MainFlow, MainFlow]"
  by (simp add: sequential_def eval_nat_numeral)

lemmas run_simps =
  init_def exec_main_def exec_worker_def set_pc_def second_fails_def always_def no_faults_def
  stderr_closed_def fetch_info_aapl fetch_info_not_found fetch_info_timeout dict_set_def
  split_beta

lemma aapl_twice_run:
  "\<exists>c. run Extended second_fails no_faults (sequential 2) (init [''AAPL'', ''AAPL'']) = Some c
      \<and> main_pc c = Exited \<and> acquired c = [0, 1]
      \<and> results c = [(''AAPL'', [(''error'', JStr ''No data found for ZZZZINVALID'')])]"
  by (simp add: sequential_2 run_simps)

lemma aapl_twice_other_run:
  "\<exists>c. run Extended second_fails no_faults
          [MainFlow, MainFlow, Worker 1, Worker 1, Worker 1, Worker 1, Worker 0, Worker 0, Worker 0,
           Worker 0, MainFlow, MainFlow, MainFlow, MainFlow] (init [''AAPL'', ''AAPL'']) = Some c
      \<and> main_pc c = Exited \<and> acquired c = [1, 0]
      \<and> results c = [(''AAPL'', aapl_record)]"
  by (simp add: run_simps)

lemma invalid_symbol_run:
  "\<exists>c. run Extended second_fails no_faults (sequential 2) (init [''AAPL'', ''ZZZZINVALID'']) = Some c
      \<and> main_pc c = Exited
      \<and> results c = [(''AAPL'', aapl_record),
                      (''ZZZZINVALID'', [(''error'', JStr ''No data found for ZZZZINVALID'')])]"
  by (simp add: sequential_2 run_simps)

lemma all_succeed_run:
  "\<exists>c. run Extended (always aapl_response) no_faults (sequential 2)
          (init [''AAPL'', ''ZZZZINVALID'']) = Some c
      \<and> main_pc c = Exited
      \<and> results c = [(''AAPL'', aapl_record), (''ZZZZINVALID'', aapl_record)]"
  by (simp add: sequential_2 run_simps)

lemma in_critical_section_run:
  "\<exists>c. run Extended second_fails no_faults [MainFlow, MainFlow, Worker 1, Worker 0, Worker 0]
          (init [''AAPL'', ''ZZZZINVALID'']) = Some c
      \<and> pc_of c 0 = Critical aapl_record
      \<and> pc_of c 1 = Pending [(''error'', JStr ''No data found for ZZZZINVALID'')]
      \<and> length (threads c) = 2"
  by (simp add: run_simps pc_of_def)

lemma empty_symbol_closed_run:
  "\<exists>c. run Extended (always timeout_response) stderr_closed
          [MainFlow, MainFlow, Worker 0, MainFlow, MainFlow] (init [[]]) = Some c
      \<and> main_pc c = Exited"
  by (simp add: run_simps)

lemma invalid_symbol_closed_run:
  "\<exists>c. run Extended second_fails stderr_closed
          [MainFlow, MainFlow, MainFlow, Worker 0, Worker 0, Worker 0, Worker 0, Worker 1,
           MainFlow, MainFlow, MainFlow] (init [''AAPL'', ''ZZZZINVALID'']) = Some c
      \<and> main_pc c = Exited \<and> results c = [(''AAPL'', aapl_record)]"
  by (simp add: run_simps)

section \<open>The run as a whole\<close>


lemma fetch_try_info:
  assumes "fetch_try v r = Inr x"
  shows "\<exists>info. info_resp r = Inr info \<and> (v = Basic \<longrightarrow> x = info)
           \<and> (\<forall>k. k \<noteq> ''last_4_dividends'' \<longrightarrow> dict_get x k = dict_get info k)"
proof (cases v)
  case Basic
  with assms show ?thesis by (auto simp: fetch_try_def split: sum.splits)
next
  case Extended
  with assms obtain info dd where "info_resp r = Inr info"
    "x = dict_set info ''last_4_dividends'' (JObj dd)"
    by (auto elim: fetch_try_ExtendedD)
  with Extended show ?thesis by (simp add: dict_get_dict_set)
qed


text \<open>The entry, at the end of a run, of a symbol whose fetches all return.\<close>

lemma final_succeeding_symbol:
  assumes r: "reachable v p f syms c" and fin: "\<forall>i<length syms. pc_of c i = Finished"
    and t: "t \<in> set syms"
    and ok: "\<forall>i<length syms. syms ! i = t \<longrightarrow>
               f i \<noteq> BaseExceptionRaised \<and> (\<exists>x. fetch_try v (p i) = Inr x)"
  shows "\<exists>i<length syms. \<exists>x info. syms ! i = t \<and> fetch_try v (p i) = Inr x
           \<and> dict_get (results c) t = Some x \<and> info_resp (p i) = Inr info
           \<and> (v = Basic \<longrightarrow> x = info)
           \<and> (\<forall>k. k \<noteq> ''last_4_dividends'' \<longrightarrow> dict_get x k = dict_get info k)"
proof -
  from t obtain j where j: "j < length syms" "syms ! j = t" by (auto simp: in_set_conv_nth)
  with ok have "stores v (p j) (f j)" by (simp add: stores_iff)
  note e = final_entry(2-5) [OF r fin j this]
  let ?l = "last (filter (\<lambda>i. syms ! i = t) (acquired c))"
  from ok e(1,2) obtain x where x: "fetch_try v (p ?l) = Inr x" by blast
  then have "outcome v (p ?l) = x" by (simp add: outcome_def)
  with e(4) have "dict_get (results c) t = Some x" by simp
  with fetch_try_info [OF x] e(1,2) x show ?thesis by blast
qed




lemma count_list_distinct: "distinct xs \<Longrightarrow> count_list xs x = (if x \<in> set xs then 1 else 0)"
  by (induction xs) auto

text \<open>
  Claim C2, as amended. Once every worker has finished, hence after the main flow has
  joined them all, the keys of the result map are distinct and are exactly the symbols of
  the workers that reached their assignment: the input symbols for which at least one
  worker was not ended by an exception. A worker reaches its assignment exactly when no
  exception other than an \<^verbatim>\<open>Exception\<close> leaves its \<^verbatim>\<open>try\<close> block and either its fetch
  returned or the writes of its handler to standard error succeeded. So no key is not an
  input symbol, each symbol is a key at most once, whatever the duplicates in the input,
  and the keys are exactly the distinct input symbols when nothing goes wrong in the
  workers beyond the provider's failures. The JSON object printed has these keys.
\<close>

theorem result_keys_are_the_symbols:
  assumes "reachable v p f syms c" and "\<forall>i<length syms. pc_of c i = Finished"
  shows "distinct (keys (results c))
       \<and> set (keys (results c)) = {syms ! i |i. i < length syms \<and> stores v (p i) (f i)}
       \<and> set (keys (results c)) \<subseteq> set syms
       \<and> (\<forall>s. count_list (keys (results c)) s
               = (if \<exists>i<length syms. syms ! i = s \<and> stores v (p i) (f i) then 1 else 0))
       \<and> (\<forall>i<length syms.
             stores v (p i) (f i)
               = (f i \<noteq> BaseExceptionRaised \<and> (f i = NoFault \<or> (\<exists>x. fetch_try v (p i) = Inr x))))
       \<and> ((\<forall>i<length syms. f i = NoFault) \<longrightarrow> set (keys (results c)) = set syms)
       \<and> (main_pc c = Exited \<longrightarrow>
            (\<exists>kvs. stdout c = [JObj kvs] \<and> map fst kvs = keys (results c)))"
proof -
  have d: "distinct (keys (results c))"
    using all_finished(4) [OF assms] by (simp add: distinct_keys_replay)
  have ks: "set (keys (results c)) = {syms ! i |i. i < length syms \<and> stores v (p i) (f i)}"
    using assms by (rule final_keys)
  have sub: "set (keys (results c)) \<subseteq> set syms"
    unfolding ks by auto
  have cnt: "count_list (keys (results c)) s
               = (if \<exists>i<length syms. syms ! i = s \<and> stores v (p i) (f i) then 1 else 0)" for s
  proof -
    have "(s \<in> set (keys (results c))) = (\<exists>i<length syms. syms ! i = s \<and> stores v (p i) (f i))"
      unfolding ks by auto
    with d show ?thesis by (simp add: count_list_distinct)
  qed
  have st: "\<forall>i<length syms.
             stores v (p i) (f i)
               = (f i \<noteq> BaseExceptionRaised \<and> (f i = NoFault \<or> (\<exists>x. fetch_try v (p i) = Inr x)))"
    by (simp add: stores_iff)
  have all: "set (keys (results c)) = set syms" if nf: "\<forall>i<length syms. f i = NoFault"
  proof -
    from nf have "{syms ! i |i. i < length syms \<and> stores v (p i) (f i)}
                    = {syms ! i |i. i < length syms}"
      by (auto simp: stores_iff)
    also have "\<dots> = set syms" by (auto simp: set_conv_nth)
    finally show ?thesis unfolding ks .
  qed
  have out: "\<exists>kvs. stdout c = [JObj kvs] \<and> map fst kvs = keys (results c)" if "main_pc c = Exited"
  proof -
    have "stdout c = [JObj (map (\<lambda>(k, d). (k, JObj d)) (results c))]"
      using Exited_stdout [OF assms(1) that] by (simp add: dumps_def)
    moreover have "map fst (map (\<lambda>(k, d). (k, JObj d)) (results c)) = keys (results c)"
      by (simp add: keys_def case_prod_beta comp_def)
    ultimately show ?thesis by blast
  qed
  from d ks sub cnt st all out show ?thesis by blast
qed

theorem result_keys_are_the_symbols_witness:
  "\<exists>c. run Extended second_fails no_faults (sequential 2) (init [''AAPL'', ''AAPL'']) = Some c
      \<and> keys (results c) = [''AAPL''] \<and> set (keys (results c)) = set [''AAPL'', ''AAPL'']
      \<and> count_list (keys (results c)) ''AAPL'' = 1 \<and> count_list (keys (results c)) ''MSFT'' = 0"
proof -
  let ?syms = "[''AAPL'', ''AAPL'']"
  from aapl_twice_run obtain c where
    run: "run Extended second_fails no_faults (sequential 2) (init ?syms) = Some c"
    and ex: "main_pc c = Exited"
    and rs: "results c = [(''AAPL'', [(''error'', JStr ''No data found for ZZZZINVALID'')])]"
    by blast
  have r: "reachable Extended second_fails no_faults ?syms c"
    using reachable_init run by (rule run_reachable)
  have fin: "\<forall>i<length ?syms. pc_of c i = Finished"
    using r ex by (rule Exited_all_finished)
  have nf: "\<forall>i<length ?syms. no_faults i = NoFault" by (simp add: no_faults_def)
  from result_keys_are_the_symbols [OF r fin] nf
  have "set (keys (results c)) = set ?syms" by blast
  with run rs show ?thesis by (simp add: keys_def)
qed

text \<open>
  Claim C2 as stated fails: when standard error is closed, the handler of the failing
  fetch raises before its assignment, and the failing symbol is not a key of the result
  map.
\<close>

theorem result_keys_counterexample:
  "map_option results
     (run Basic second_fails stderr_closed
        [MainFlow, MainFlow, MainFlow, Worker 0, Worker 0, Worker 0, Worker 0, Worker 1,
         MainFlow, MainFlow, MainFlow] (init [''AAPL'', ''ZZZZINVALID'']))
     = Some [(''AAPL'', [(''symbol'', JStr ''AAPL'')])]
   \<and> map_option stdout
     (run Basic second_fails stderr_closed
        [MainFlow, MainFlow, MainFlow, Worker 0, Worker 0, Worker 0, Worker 0, Worker 1,
         MainFlow, MainFlow, MainFlow] (init [''AAPL'', ''ZZZZINVALID'']))
     = Some [JObj [(''AAPL'', JObj [(''symbol'', JStr ''AAPL'')])]]"
  by (simp add: init_def exec_main_def exec_worker_def set_pc_def second_fails_def
       stderr_closed_def aapl_response_def not_found_response_def fetch_info_def fetch_try_def
       dict_set_def dumps_def split_beta)

lemma error_message_empty:
  "(error_message v e = []) = (str_e e = [] \<and> \<not> (v = Extended \<and> is_HTTPError e))"
  by (simp add: error_message_def)

lemma fetch_try_error_key:
  assumes "fetch_try v r = Inr stored"
  shows "\<exists>info. info_resp r = Inr info
           \<and> (''error'' \<in> set (keys stored)) = (''error'' \<in> set (keys info))"
proof (cases v)
  case Basic
  with assms show ?thesis by (auto simp: fetch_try_def split: sum.splits)
next
  case Extended
  with assms obtain info dd where "info_resp r = Inr info"
    "stored = dict_set info ''last_4_dividends'' (JObj dd)"
    by (auto elim: fetch_try_ExtendedD)
  then show ?thesis by (simp add: keys_dict_set)
qed

text \<open>
  Claim C3, as amended. Every value in the result map is the outcome of the fetch of one
  worker bound to that key. When that fetch fails with \<open>e\<close>, the value is exactly the
  one-field object \<open>{"error": m}\<close>, where \<open>m\<close> is \<open>str(e)\<close>, prefixed with
  \<open>HTTPError: \<close> for an \<open>HTTPError\<close> in the extended variant; \<open>m\<close> is empty exactly
  when \<open>str(e)\<close> is empty and no prefix applies. When the fetch succeeds, the value is the
  record fetched, which has an \<open>error\<close> key exactly when the provider's own metadata
  record has one.
\<close>

theorem outcome_shapes:
  assumes "reachable v p f syms c" and "(s, d) \<in> set (results c)"
  shows "\<exists>i<length syms. syms ! i = s \<and> d = outcome v (p i)
       \<and> (\<forall>e. fetch_try v (p i) = Inl e \<longrightarrow>
              d = [(''error'', JStr (error_message v e))] \<and> is_error_descriptor d
            \<and> error_message v e
                = (if v = Extended \<and> is_HTTPError e then ''HTTPError: '' @ str_e e else str_e e)
            \<and> ((error_message v e = []) = (str_e e = [] \<and> \<not> (v = Extended \<and> is_HTTPError e))))
       \<and> (\<forall>stored. fetch_try v (p i) = Inr stored \<longrightarrow>
              d = stored
            \<and> (\<exists>info. info_resp (p i) = Inr info
                  \<and> (''error'' \<in> set (keys d)) = (''error'' \<in> set (keys info))))"
proof -
  from results_entries [OF assms] obtain i where
    i: "i < length syms" "syms ! i = s" "d = outcome v (p i)"
    by blast
  have fail: "d = [(''error'', JStr (error_message v e))] \<and> is_error_descriptor d
            \<and> error_message v e
                = (if v = Extended \<and> is_HTTPError e then ''HTTPError: '' @ str_e e else str_e e)
            \<and> ((error_message v e = []) = (str_e e = [] \<and> \<not> (v = Extended \<and> is_HTTPError e)))"
    if "fetch_try v (p i) = Inl e" for e
    using that i(3) error_message_empty [of v e]
    by (simp add: outcome_def error_entry_def) (simp add: error_message_def)
  have ok: "d = stored \<and> (\<exists>info. info_resp (p i) = Inr info
                  \<and> (''error'' \<in> set (keys d)) = (''error'' \<in> set (keys info)))"
    if "fetch_try v (p i) = Inr stored" for stored
    using that i(3) fetch_try_error_key [OF that] by (simp add: outcome_def)
  from i fail ok show ?thesis by blast
qed

theorem outcome_shapes_witness:
  "\<exists>c. run Extended second_fails no_faults (sequential 2) (init [''AAPL'', ''ZZZZINVALID'']) = Some c
      \<and> (''ZZZZINVALID'', [(''error'', JStr ''No data found for ZZZZINVALID'')]) \<in> set (results c)
      \<and> (\<exists>i<length [''AAPL'', ''ZZZZINVALID''].
            [(''error'', JStr ''No data found for ZZZZINVALID'')] = outcome Extended (second_fails i))"
proof -
  from invalid_symbol_run obtain c where
    run: "run Extended second_fails no_faults (sequential 2) (init [''AAPL'', ''ZZZZINVALID'']) = Some c"
    and rs: "results c = [(''AAPL'', aapl_record),
                      (''ZZZZINVALID'', [(''error'', JStr ''No data found for ZZZZINVALID'')])]"
    by blast
  have r: "reachable Extended second_fails no_faults [''AAPL'', ''ZZZZINVALID''] c"
    using reachable_init run by (rule run_reachable)
  have m: "(''ZZZZINVALID'', [(''error'', JStr ''No data found for ZZZZINVALID'')]) \<in> set (results c)"
    by (simp add: rs)
  from outcome_shapes [OF r m] obtain i where "i < length [''AAPL'', ''ZZZZINVALID'']"
    "[(''error'', JStr ''No data found for ZZZZINVALID'')] = outcome Extended (second_fails i)"
    by blast
  with run m show ?thesis by blast
qed

text \<open>
  Claim C3 as stated fails: an exception whose \<open>str(e)\<close> is empty gives the message
  \<open>""\<close> in both variants, and a metadata record with an \<open>error\<close> key is stored as it
  is.
\<close>

theorem error_message_counterexample:
  "fetch_try Basic \<lparr>info_resp = Inl (PyExc False [] ''Traceback''), div_resp = Inr []\<rparr>
     = Inl (PyExc False [] ''Traceback'')
   \<and> outcome Basic \<lparr>info_resp = Inl (PyExc False [] ''Traceback''), div_resp = Inr []\<rparr>
     = [(''error'', JStr [])]
   \<and> outcome Extended \<lparr>info_resp = Inl (PyExc False [] ''Traceback''), div_resp = Inr []\<rparr>
     = [(''error'', JStr [])]
   \<and> fetch_try Basic \<lparr>info_resp = Inr [(''error'', JNull)], div_resp = Inr []\<rparr>
     = Inr [(''error'', JNull)]
   \<and> dict_get (outcome Basic \<lparr>info_resp = Inr [(''error'', JNull)], div_resp = Inr []\<rparr>) ''error''
     = Some JNull"
  by (simp add: fetch_try_def outcome_def error_entry_def error_message_def dict_get_def)


text \<open>
  Claim C7. In every reachable state of every interleaving: a thread about to assign into
  \<open>results\<close> holds the lock, and no other thread is inside \<^verbatim>\<open>with lock\<close>; a step
  changes \<open>results\<close> only if it is such an assignment; when the main flow is about to read
  \<open>results\<close> for \<^verbatim>\<open>json.dumps\<close>, every thread has finished, the lock is free and no
  thread is about to assign; and after the read no step is left.
\<close>

theorem writes_locked_read_after_join:
  assumes "reachable v p f syms c"
  shows "(\<forall>i. mutates_results c (Worker i) \<longrightarrow>
            lock c \<and> (\<forall>j<length (threads c). in_cs (pc_of c j) \<longrightarrow> j = i))
       \<and> (\<forall>a c'. exec v p f a c = Some c' \<longrightarrow> results c' \<noteq> results c \<longrightarrow> mutates_results c a)
       \<and> (\<forall>a. reads_results c a \<longrightarrow>
            (\<forall>i<length (threads c). pc_of c i = Finished) \<and> \<not> lock c
          \<and> (\<forall>b. \<not> mutates_results c b))
       \<and> (main_pc c = Exited \<longrightarrow> (\<forall>a. exec v p f a c = None))"
proof -
  from reachable_invariant [OF assms] have mn: "inv_main c" and lk: "inv_lock c"
    by (simp_all add: invariant_def)
  have 1: "lock c \<and> (\<forall>j<length (threads c). in_cs (pc_of c j) \<longrightarrow> j = i)"
    if "mutates_results c (Worker i)" for i
  proof -
    from that have i: "i < length (threads c)" "in_cs (pc_of c i)"
      by (auto split: pc.splits)
    with lk show ?thesis unfolding inv_lock_def by blast
  qed
  have 2: "mutates_results c a" if "exec v p f a c = Some c'" "results c' \<noteq> results c" for a c'
    using that by (cases rule: exec_cases) simp_all
  have 3: "(\<forall>i<length (threads c). pc_of c i = Finished) \<and> \<not> lock c
          \<and> (\<forall>b. \<not> mutates_results c b)" if "reads_results c a" for a
  proof -
    from that obtain k where k: "main_pc c = Joining k" "\<not> k < length (threads c)"
      by (cases a; cases "main_pc c") auto
    with mn have fin: "\<forall>i<length (threads c). pc_of c i = Finished"
      by (auto simp: inv_main_def)
    with lk have "\<not> lock c" by (auto simp: inv_lock_def)
    moreover have "\<not> mutates_results c b" for b
      using fin by (cases b) (auto split: pc.splits)
    ultimately show ?thesis using fin by blast
  qed
  have 4: "\<forall>a. exec v p f a c = None" if "main_pc c = Exited"
    using Exited_no_step [OF assms that] by blast
  from 1 2 3 4 show ?thesis by blast
qed

theorem writes_locked_read_after_join_witness:
  "\<exists>c. run Extended second_fails no_faults [MainFlow, MainFlow, Worker 1, Worker 0, Worker 0]
          (init [''AAPL'', ''ZZZZINVALID'']) = Some c
      \<and> mutates_results c (Worker 0) \<and> lock c
      \<and> exec Extended second_fails no_faults (Worker 1) c = None"
proof -
  from in_critical_section_run obtain c where
    run: "run Extended second_fails no_faults [MainFlow, MainFlow, Worker 1, Worker 0, Worker 0]
          (init [''AAPL'', ''ZZZZINVALID'']) = Some c"
    and pcs: "pc_of c 0 = Critical aapl_record"
      "pc_of c 1 = Pending [(''error'', JStr ''No data found for ZZZZINVALID'')]"
      "length (threads c) = 2"
    by blast
  have r: "reachable Extended second_fails no_faults [''AAPL'', ''ZZZZINVALID''] c"
    using reachable_init run by (rule run_reachable)
  have m: "mutates_results c (Worker 0)" using pcs by simp
  with writes_locked_read_after_join [OF r] have l: "lock c" by blast
  obtain s q where t: "threads c ! 1 = (s, q)" by (cases "threads c ! 1")
  with pcs(2) have "q = Pending [(''error'', JStr ''No data found for ZZZZINVALID'')]"
    by (simp add: pc_of_def)
  with t l pcs(3) have "exec Extended second_fails no_faults (Worker 1) c = None"
    by (simp add: exec_worker_def)
  with run m l show ?thesis by blast
qed

end
